theory Spec2Isabelle
  imports Main
begin

section \<open>Tokens\<close>

text \<open>
  The enum \<open>TokenId\<close> and the struct \<open>Token\<close> of \<open>shell.cpp\<close>. The member
  \<open>std::string *str\<close> is a pointer: \<open>None\<close> is the null pointer. \<open>Token::make\<close>
  accepts every \<open>TokenId\<close> and leaves the pointer null; \<open>Token::makeIdent\<close> builds an
  \<open>IDENT\<close> with a string.
\<close>

datatype TokenId = IDENT | PIPE | REDIR_IN | REDIR_OUT | APPEND_OUT | BG | END

record Token =
  token_id :: TokenId
  str :: "string option"

definition make :: "TokenId \<Rightarrow> Token" where
  "make id' = \<lparr>token_id = id', str = None\<rparr>"

definition makeIdent :: "string \<Rightarrow> Token" where
  "makeIdent s = \<lparr>token_id = IDENT, str = Some s\<rparr>"

text \<open>
  \<open>Token::operator==\<close>, branch by branch: the left pointer null; the right pointer
  null; both strings present.
\<close>

definition Token_eq :: "Token \<Rightarrow> Token \<Rightarrow> bool" where
  "Token_eq lhs rhs =
     (case str lhs of
        None \<Rightarrow> token_id lhs = token_id rhs \<and> str rhs = None
      | Some s \<Rightarrow>
          (case str rhs of
             None \<Rightarrow> token_id lhs = token_id rhs
           | Some r \<Rightarrow> token_id lhs = token_id rhs \<and> s = r))"

section \<open>Faults and the standard library\<close>

text \<open>
  Places where the C++ has no defined result are results of their own in the model:
  \<open>front()\<close> of an empty \<open>std::string\<close> or \<open>std::vector\<close> (the containers require
  \<open>!empty()\<close>), a dereferenced null pointer, and a read of a member that no
  constructor or assignment has initialised.
\<close>

datatype fault = FrontOfEmptyString | FrontOfEmptyVector | NullDereference | IndeterminateRead

text \<open>
  The containers belong to the standard library, which is not part of the repository,
  and what \<open>front()\<close> does on an empty container depends on how the library is built.
  A \<open>Checked\<close> library tests the precondition and aborts the program at the call. An
  \<open>Unchecked\<close> library, the ordinary build, reads the storage: an emptied
  \<open>std::string\<close> gives its terminating NUL character, and a \<open>std::vector\<close> that
  \<open>erase(begin())\<close> has just emptied gives the element erased last, which is still in
  the first slot of its storage.
\<close>

datatype library = Checked | Unchecked

definition string_front :: "library \<Rightarrow> string \<Rightarrow> fault + char" where
  "string_front lib s =
     (case s of
        c # _ \<Rightarrow> Inr c
      | [] \<Rightarrow> (case lib of Checked \<Rightarrow> Inl FrontOfEmptyString | Unchecked \<Rightarrow> Inr (CHR 0x00)))"

text \<open>
  \<open>erased\<close> is the token that the last \<open>tokens.erase(tokens.begin())\<close> took off the
  vector.
\<close>

definition vector_front :: "library \<Rightarrow> Token \<Rightarrow> Token list \<Rightarrow> fault + Token" where
  "vector_front lib erased tokens =
     (case tokens of
        t # _ \<Rightarrow> Inr t
      | [] \<Rightarrow> (case lib of Checked \<Rightarrow> Inl FrontOfEmptyVector | Unchecked \<Rightarrow> Inr erased))"

section \<open>The lexer\<close>

text \<open>
  \<open>std::string::find_first_of\<close>: the index of the first character of the string that
  occurs in \<open>chars\<close>; \<open>None\<close> is \<open>std::string::npos\<close>.
\<close>

fun find_first_of :: "string \<Rightarrow> string \<Rightarrow> nat option" where
  "find_first_of [] chars = None"
| "find_first_of (c # cs) chars =
     (if c \<in> set chars then Some 0
      else (case find_first_of cs chars of None \<Rightarrow> None | Some i \<Rightarrow> Some (Suc i)))"

text \<open>
  \<open>buildToken\<close> takes the input by reference and erases what it reads: the model
  returns the token together with the input that is left. The first equation is the
  \<open>input.empty()\<close> test at the head of the loop, the second one iteration:
  \<open>current_char\<close> is taken off the front and the \<open>switch\<close> decides. In the case
  \<open>'>'\<close> the code calls \<open>input.front()\<close> without testing \<open>input.empty()\<close>, and
  erases a second character when the one it has read is \<open>'>'\<close>.
\<close>

fun buildToken :: "library \<Rightarrow> string \<Rightarrow> (fault + Token) \<times> string" where
  "buildToken lib [] = (Inr (make END), [])"
| "buildToken lib (current_char # input) =
     (if current_char = CHR '' '' then buildToken lib input
      else if current_char = CHR ''>'' then
        (case string_front lib input of
           Inl f \<Rightarrow> (Inl f, input)
         | Inr c \<Rightarrow>
             if c = CHR ''>'' then (Inr (make APPEND_OUT), drop 1 input)
             else (Inr (make REDIR_OUT), input))
      else if current_char = CHR ''<'' then (Inr (make REDIR_IN), input)
      else if current_char = CHR ''|'' then (Inr (make PIPE), input)
      else if current_char = CHR ''&'' then (Inr (make BG), input)
      else
        (case find_first_of input '' ><|&'' of
           None \<Rightarrow> (Inr (makeIdent (current_char # input)), [])
         | Some found \<Rightarrow>
             (Inr (makeIdent (current_char # take found input)), drop found input)))"

section \<open>The tokenizer driver\<close>

text \<open>
  \<open>tokenList\<close> calls \<open>buildToken\<close> until it returns \<open>END\<close>. Nothing in the loop
  itself bounds the number of iterations, so the model is a partial function: \<open>None\<close>
  would be a loop that never ends. A fault of the lexer ends the run with that fault.
  \<open>tokenLoop\<close> is the \<open>while\<close> loop with \<open>token_list\<close> as built so far; the call
  of \<open>buildToken\<close> before the loop and the one that ends each iteration are the one
  call at its head. The caller's string is used up: \<open>END\<close> is returned only when it is
  empty.
\<close>

partial_function (option) tokenLoop ::
  "library \<Rightarrow> Token list \<Rightarrow> string \<Rightarrow> (fault + Token list) option" where
  "tokenLoop lib token_list commandLine =
     (case buildToken lib commandLine of
        (Inl f, rest) \<Rightarrow> Some (Inl f)
      | (Inr cur_token, rest) \<Rightarrow>
          if token_id cur_token \<noteq> END then tokenLoop lib (token_list @ [cur_token]) rest
          else Some (Inr token_list))"

definition tokenList :: "library \<Rightarrow> string \<Rightarrow> (fault + Token list) option" where
  "tokenList lib commandLine = tokenLoop lib [] commandLine"

declare tokenLoop.simps [code]

section \<open>Commands\<close>

text \<open>
  The struct \<open>Command\<close>: one node per pipeline stage, \<open>pipe_to\<close> the next stage.
  \<open>command\<close>, \<open>redir_in\<close> and \<open>redir_out\<close> are \<open>const char *\<close>, \<open>args\<close> is a
  pointer to a vector of string pointers, and \<open>None\<close> is the null pointer each time.
  The member \<open>append\<close> is \<open>append_flag\<close> here. The constructor initialises every
  member but \<open>append\<close>, and only the case \<open>APPEND_OUT\<close> of the parser ever assigns
  it: \<open>None\<close> is the member as the constructor leaves it.
\<close>

datatype Command = Command
  (command: "string option")
  (args: "string option list option")
  (bg: bool)
  (append_flag: "bool option")
  (redir_in: "string option")
  (redir_out: "string option")
  (pipe_to: "Command option")

definition newCommand :: Command where
  "newCommand = Command None None False None None None None"

section \<open>The parser\<close>

text \<open>
  The inner \<open>while\<close> loop of the case \<open>IDENT\<close>. It is entered with \<open>peek\<close> read
  from the front of \<open>tokens\<close>; each round erases the front token, appends the string
  pointer of \<open>peek\<close> and reads \<open>tokens.front()\<close> again, with no test for an empty
  vector in between. The test \<open>tokens.empty()\<close> at the head of the body is the first
  equation.
\<close>

fun collectArgs ::
  "library \<Rightarrow> Token \<Rightarrow> string option list \<Rightarrow> Token list \<Rightarrow>
   fault + (string option list \<times> Token list)" where
  "collectArgs lib peek args' [] = Inr (args', [])"
| "collectArgs lib peek args' (t # rest) =
     (if token_id peek = IDENT then
        (case vector_front lib t rest of
           Inl f \<Rightarrow> Inl f
         | Inr peek' \<Rightarrow> collectArgs lib peek' (args' @ [str peek]) rest)
      else Inr (args', t # rest))"

text \<open>
  What the cases \<open>REDIR_IN\<close> and \<open>REDIR_OUT\<close> do with the token vector: \<open>Inr None\<close>
  is \<open>return nullptr\<close> (no token left, or the next one is no \<open>IDENT\<close>); otherwise the
  file name and the tokens after it.
\<close>

definition redirTarget :: "Token list \<Rightarrow> fault + (string \<times> Token list) option" where
  "redirTarget tokens =
     (case tokens of
        [] \<Rightarrow> Inr None
      | peek # rest \<Rightarrow>
          if token_id peek \<noteq> IDENT then Inr None
          else (case str peek of
                  None \<Rightarrow> Inl NullDereference
                | Some file \<Rightarrow> Inr (Some (file, rest))))"

lemma collectArgs_length:
  "collectArgs lib peek as ts = Inr (as', ts') \<Longrightarrow> length ts' \<le> length ts"
proof (induction lib peek as ts arbitrary: as' ts' rule: collectArgs.induct)
  case (1 lib peek args')
  then show ?case by simp
next
  case (2 lib peek args' t rest)
  show ?case
  proof (cases "token_id peek = IDENT")
    case False
    with 2(2) show ?thesis by simp
  next
    case True
    show ?thesis
    proof (cases "vector_front lib t rest")
      case (Inl f)
      with True 2(2) show ?thesis by simp
    next
      case (Inr peek')
      with True 2(2) have "collectArgs lib peek' (args' @ [str peek]) rest = Inr (as', ts')"
        by simp
      with 2(1) True Inr have "length ts' \<le> length rest"
        by blast
      then show ?thesis by simp
    qed
  qed
qed

lemma redirTarget_length:
  "redirTarget ts = Inr (Some (fname, ts')) \<Longrightarrow> length ts' < length ts"
  by (cases ts) (auto simp: redirTarget_def split: if_splits option.splits)

text \<open>
  \<open>buildCommands\<close>: \<open>Inr None\<close> is the null pointer it returns on a syntax error.
  \<open>buildLoop\<close> is one round of the \<open>for (;;)\<close> loop, from the \<open>switch\<close> on
  \<open>cur_token\<close>; \<open>loopTail\<close> is the code after the \<open>switch\<close>, which returns when no
  token is left and otherwise takes the next \<open>cur_token\<close> off the front. The cases
  stand in the order of the source; \<open>APPEND_OUT\<close> sets \<open>append\<close> and falls through
  into \<open>REDIR_OUT\<close>. The case \<open>IDENT\<close> reads \<open>tokens.front()\<close> before anything
  else; the token erased last is \<open>cur_token\<close> there.
\<close>

function buildCommands :: "library \<Rightarrow> Token list \<Rightarrow> fault + Command option"
  and buildLoop :: "library \<Rightarrow> Command \<Rightarrow> Token \<Rightarrow> Token list \<Rightarrow> fault + Command option"
  and loopTail :: "library \<Rightarrow> Command \<Rightarrow> Token list \<Rightarrow> fault + Command option"
where
  "buildCommands lib [] = Inr None"
| "buildCommands lib (cur_token # tokens) =
     (if token_id cur_token \<noteq> IDENT then Inr None
      else buildLoop lib newCommand cur_token tokens)"
| "buildLoop lib (Command c a b ap ri ro p) cur_token tokens =
     (case token_id cur_token of
        BG \<Rightarrow> loopTail lib (Command c a True ap ri ro p) tokens
      | REDIR_IN \<Rightarrow>
          (case redirTarget tokens of
             Inl f \<Rightarrow> Inl f
           | Inr None \<Rightarrow> Inr None
           | Inr (Some (file, rest)) \<Rightarrow> loopTail lib (Command c a b ap (Some file) ro p) rest)
      | APPEND_OUT \<Rightarrow>
          (case redirTarget tokens of
             Inl f \<Rightarrow> Inl f
           | Inr None \<Rightarrow> Inr None
           | Inr (Some (file, rest)) \<Rightarrow>
               loopTail lib (Command c a b (Some True) ri (Some file) p) rest)
      | REDIR_OUT \<Rightarrow>
          (case redirTarget tokens of
             Inl f \<Rightarrow> Inl f
           | Inr None \<Rightarrow> Inr None
           | Inr (Some (file, rest)) \<Rightarrow> loopTail lib (Command c a b ap ri (Some file) p) rest)
      | PIPE \<Rightarrow>
          (case buildCommands lib tokens of
             Inl f \<Rightarrow> Inl f
           | Inr None \<Rightarrow> Inr None
           | Inr (Some next_stage) \<Rightarrow> Inr (Some (Command c a b ap ri ro (Some next_stage))))
      | END \<Rightarrow> Inr (Some (Command c a b ap ri ro p))
      | IDENT \<Rightarrow>
          (case vector_front lib cur_token tokens of
             Inl f \<Rightarrow> Inl f
           | Inr peek \<Rightarrow>
               (case str cur_token of
                  None \<Rightarrow> Inl NullDereference
                | Some name \<Rightarrow>
                    (case collectArgs lib peek [str cur_token] tokens of
                       Inl f \<Rightarrow> Inl f
                     | Inr (args', rest) \<Rightarrow>
                         loopTail lib (Command (Some name) (Some args') b ap ri ro p) rest))))"
| "loopTail lib cmd [] = (if command cmd = None then Inr None else Inr (Some cmd))"
| "loopTail lib cmd (cur_token # tokens) = buildLoop lib cmd cur_token tokens"
  by pat_completeness auto
termination
proof (relation "measure (\<lambda>x. case x of
          Inl (l, ts) \<Rightarrow> 2 * length ts + 1
        | Inr (Inl (l, c, t, ts)) \<Rightarrow> 2 * length ts + 2
        | Inr (Inr (l, c, ts)) \<Rightarrow> 2 * length ts + 1)", goal_cases)
  case 1
  show ?case by simp
next
  case (2 lib cur_token tokens)
  show ?case by simp
next
  case (3 lib c a b ap ri ro p cur_token tokens peek name res args' rest)
  then have "length rest \<le> length tokens"
    using collectArgs_length [of lib peek "[str cur_token]" tokens args' rest] by simp
  then show ?case by simp
next
  case (4 lib c a b ap ri ro p cur_token tokens)
  show ?case by simp
next
  case (5 lib c a b ap ri ro p cur_token tokens res tgt fname rest)
  then have "length rest < length tokens"
    using redirTarget_length [of tokens fname rest] by simp
  then show ?case by simp
next
  case (6 lib c a b ap ri ro p cur_token tokens res tgt fname rest)
  then have "length rest < length tokens"
    using redirTarget_length [of tokens fname rest] by simp
  then show ?case by simp
next
  case (7 lib c a b ap ri ro p cur_token tokens res tgt fname rest)
  then have "length rest < length tokens"
    using redirTarget_length [of tokens fname rest] by simp
  then show ?case by simp
next
  case (8 lib c a b ap ri ro p cur_token tokens)
  show ?case by simp
next
  case (9 lib cmd cur_token tokens)
  show ?case by simp
qed

section \<open>The executor\<close>

text \<open>
  The flags and permission bits of \<open>open\<close> that the code names; their numeric values
  belong to the system headers, and \<open>|\<close> on them is the union of sets here.
\<close>

datatype open_flag = O_RDONLY | O_WRONLY | O_CREAT | O_APPEND | O_TRUNC

datatype mode_bit = S_IRUSR | S_IWUSR

text \<open>
  What the operating system answers, which the code cannot decide: whether a file can
  be opened for reading, and whether the \<open>n\<close>-th call of \<open>pipe\<close> succeeds.
\<close>

datatype os = OS (open_ok: "string \<Rightarrow> bool") (pipe_ok: "nat \<Rightarrow> bool")

text \<open>
  File descriptors by what they are connected to, and a forked stage by what it
  passes to \<open>execvp\<close> and what \<open>dup2\<close> has made its standard input and output.
\<close>

datatype fd =
    STDIN_FILENO
  | STDOUT_FILENO
  | PipeRead nat
  | PipeWrite nat
  | Opened string "open_flag set" "mode_bit set"

datatype child = Child (program: string) (argv: "string list") (child_stdin: fd) (child_stdout: fd)

text \<open>
  The array \<open>c_args\<close> and the call \<open>execvp(command->command, c_args)\<close>: entry \<open>0\<close>
  is the command, the entries from \<open>1\<close> on are the arguments from the second on, and
  the null pointer written at index \<open>args.size()\<close> ends the array (at index \<open>0\<close>
  when there is no argument at all). Every pointer the code dereferences on the way
  may be null.
\<close>

fun strings :: "string option list \<Rightarrow> fault + string list" where
  "strings [] = Inr []"
| "strings (None # ps) = Inl NullDereference"
| "strings (Some s # ps) = (case strings ps of Inl f \<Rightarrow> Inl f | Inr ss \<Rightarrow> Inr (s # ss))"

definition execvp_call :: "Command \<Rightarrow> fault + string \<times> string list" where
  "execvp_call cmd =
     (case args cmd of
        None \<Rightarrow> Inl NullDereference
      | Some ps \<Rightarrow>
          (case strings (drop 1 ps) of
             Inl f \<Rightarrow> Inl f
           | Inr rest \<Rightarrow>
               (case command cmd of
                  None \<Rightarrow> Inl NullDereference
                | Some name \<Rightarrow> Inr (name, if ps = [] then [] else name # rest))))"

text \<open>
  \<open>executeCommand(Command *, int)\<close>, the recursive stage launcher, as the shell
  process runs it: \<open>n\<close> counts the pipes made so far, \<open>inp\<close> is the descriptor the
  stage reads. \<open>Inr None\<close> is \<open>exit(EXIT_FAILURE)\<close> after a failed \<open>pipe\<close>;
  otherwise the result is the stages forked, in order, and the read end of the last
  pipe.
\<close>

fun executeCommand_input :: "os \<Rightarrow> nat \<Rightarrow> Command \<Rightarrow> fd \<Rightarrow> fault + (child list \<times> fd) option" where
  "executeCommand_input os n (Command c a b ap ri ro p) inp =
     (if \<not> pipe_ok os n then Inr None
      else
        (case execvp_call (Command c a b ap ri ro p) of
           Inl f \<Rightarrow> Inl f
         | Inr (name, c_args) \<Rightarrow>
             (case p of
                None \<Rightarrow> Inr (Some ([Child name c_args inp (PipeWrite n)], PipeRead n))
              | Some next_stage \<Rightarrow>
                  (case executeCommand_input os (Suc n) next_stage (PipeRead n) of
                     Inl f \<Rightarrow> Inl f
                   | Inr None \<Rightarrow> Inr None
                   | Inr (Some (forked, output)) \<Rightarrow>
                       Inr (Some (Child name c_args inp (PipeWrite n) # forked, output))))))"

fun lastCommand :: "Command \<Rightarrow> Command" where
  "lastCommand (Command c a b ap ri ro None) = Command c a b ap ri ro None"
| "lastCommand (Command c a b ap ri ro (Some next_stage)) = lastCommand next_stage"

text \<open>
  Where the forked drain process copies the output to: the file \<open>redir_out\<close> of the
  last command, opened with \<open>O_WRONLY | O_CREAT | append\<close> and mode
  \<open>S_IRUSR | S_IWUSR\<close>, or the standard output. \<open>append\<close> is read only when
  \<open>redir_out\<close> is set.
\<close>

definition drainTarget :: "Command \<Rightarrow> fault + fd" where
  "drainTarget last_command =
     (case redir_out last_command of
        None \<Rightarrow> Inr STDOUT_FILENO
      | Some path \<Rightarrow>
          (case append_flag last_command of
             None \<Rightarrow> Inl IndeterminateRead
           | Some ap \<Rightarrow>
               Inr (Opened path ({O_WRONLY, O_CREAT} \<union> {if ap then O_APPEND else O_TRUNC})
                      {S_IRUSR, S_IWUSR})))"

text \<open>
  \<open>executeCommand(Command *)\<close>, the pipeline driver. \<open>OpenFailed\<close> is the early
  \<open>return\<close> when the input file cannot be opened, \<open>Exited\<close> the exit of the shell in
  the launcher. \<open>Returned\<close> tells what was forked, what the drain process reads and
  writes, and whether the driver called \<open>waitpid\<close> on the drain process before it
  returned.
\<close>

datatype outcome =
    OpenFailed
  | Exited
  | Returned (forked: "child list") (drain_from: fd) (drain_to: "fault + fd") (waited: bool)

definition executeCommand :: "os \<Rightarrow> Command \<Rightarrow> fault + outcome" where
  "executeCommand os cmd =
     (case (case redir_in cmd of
              None \<Rightarrow> Some STDIN_FILENO
            | Some path \<Rightarrow> if open_ok os path then Some (Opened path {O_RDONLY} {}) else None) of
        None \<Rightarrow> Inr OpenFailed
      | Some inp \<Rightarrow>
          (case executeCommand_input os 0 cmd inp of
             Inl f \<Rightarrow> Inl f
           | Inr None \<Rightarrow> Inr Exited
           | Inr (Some (stages_forked, output)) \<Rightarrow>
               Inr (Returned stages_forked output (drainTarget (lastCommand cmd)) (\<not> bg cmd))))"

section \<open>The vocabulary of the specification\<close>

text \<open>
  What the parser relies on in the tokens it is given, and what the tokenizer driver
  guarantees: no token is \<open>END\<close> (the driver drops it), and every \<open>IDENT\<close> has
  its string.
\<close>

definition lexed :: "Token \<Rightarrow> bool" where
  "lexed t = (token_id t \<noteq> END \<and> (token_id t \<noteq> IDENT \<or> str t \<noteq> None))"

text \<open>
  The shape of the tokens of the lexer in full: the string of an identifier is not
  empty and holds none of the characters that end an identifier, and no other token
  has a string.
\<close>

definition word :: "string \<Rightarrow> bool" where
  "word w = (w \<noteq> [] \<and> list_all (\<lambda>c. c \<notin> set '' ><|&'') w)"

definition shaped :: "Token \<Rightarrow> bool" where
  "shaped t =
     (case token_id t of
        IDENT \<Rightarrow> (case str t of None \<Rightarrow> False | Some w \<Rightarrow> word w)
      | END \<Rightarrow> False
      | _ \<Rightarrow> str t = None)"

definition notEnd :: "Token \<Rightarrow> bool" where
  "notEnd t = (token_id t \<noteq> END)"

definition count_pipes :: "Token list \<Rightarrow> nat" where
  "count_pipes ts = length (filter (\<lambda>t. token_id t = PIPE) ts)"

definition isIdent :: "Token \<Rightarrow> bool" where
  "isIdent t = (token_id t = IDENT)"

definition redirect_op :: "Token \<Rightarrow> bool" where
  "redirect_op t =
     (token_id t = REDIR_IN \<or> token_id t = REDIR_OUT \<or> token_id t = APPEND_OUT)"

text \<open>
  A redirection operator that is the last token, or whose next token is not an
  identifier.
\<close>

fun dangling_redirect :: "Token list \<Rightarrow> bool" where
  "dangling_redirect [] = False"
| "dangling_redirect [t] = redirect_op t"
| "dangling_redirect (t # n # ts) =
     (redirect_op t \<and> token_id n \<noteq> IDENT \<or> dangling_redirect (n # ts))"

definition doomed :: "Token list \<Rightarrow> bool" where
  "doomed ts = (ts \<noteq> [] \<and> (token_id (last ts) = PIPE \<or> dangling_redirect ts))"

text \<open>The chain as the list of its stages, first stage first.\<close>

fun stages :: "Command \<Rightarrow> Command list" where
  "stages (Command c a b ap ri ro None) = [Command c a b ap ri ro None]"
| "stages (Command c a b ap ri ro (Some n)) = Command c a b ap ri ro (Some n) # stages n"

text \<open>
  The placement invariant of the data model: no stage but the first has an input
  redirect, and no stage but the last has an output redirect or is flagged
  \<open>background\<close>.
\<close>

definition placement_ok :: "Command \<Rightarrow> bool" where
  "placement_ok c =
     (list_all (\<lambda>s. redir_in s = None) (tl (stages c)) \<and>
      list_all (\<lambda>s. redir_out s = None \<and> \<not> bg s) (butlast (stages c)))"

text \<open>The tokens after the first \<open>PIPE\<close>, and the tokens before the last one.\<close>

fun after_first_pipe :: "Token list \<Rightarrow> Token list" where
  "after_first_pipe [] = []"
| "after_first_pipe (t # ts) = (if token_id t = PIPE then ts else after_first_pipe ts)"

definition hasPipe :: "Token list \<Rightarrow> bool" where
  "hasPipe ts = list_ex (\<lambda>t. token_id t = PIPE) ts"

fun before_last_pipe :: "Token list \<Rightarrow> Token list" where
  "before_last_pipe [] = []"
| "before_last_pipe (t # ts) = (if hasPipe ts then t # before_last_pipe ts else [])"

definition noIn :: "Token \<Rightarrow> bool" where
  "noIn t = (token_id t \<noteq> REDIR_IN)"

definition noOutBg :: "Token \<Rightarrow> bool" where
  "noOutBg t = (token_id t \<noteq> REDIR_OUT \<and> token_id t \<noteq> APPEND_OUT \<and> token_id t \<noteq> BG)"

definition outNone :: "Command \<Rightarrow> bool" where
  "outNone s = (redir_out s = None \<and> \<not> bg s)"

text \<open>
  The grammar of well-formed command lines,
  \<open>ident+ (redir ident)* (&)? (| ident+ (redir ident)*)* (&)?\<close>, as a recogniser:
  \<open>redirections\<close> takes \<open>(redir ident)*\<close> off the front, \<open>stage_rest\<close> a whole
  stage, and \<open>piped\<close> recognises \<open>(| stage)* (&)?\<close>. The tokens of the grammar
  are the tokens of the lexer: every identifier carries its string.
\<close>

fun redirections :: "Token list \<Rightarrow> Token list" where
  "redirections (r # f # ts) =
     (if redirect_op r \<and> isIdent f then redirections ts else r # f # ts)"
| "redirections ts = ts"

definition stage_rest :: "Token list \<Rightarrow> Token list option" where
  "stage_rest ts =
     (case ts of
        [] \<Rightarrow> None
      | w # rest \<Rightarrow> if isIdent w then Some (redirections (dropWhile isIdent rest)) else None)"

lemma redirections_suffix: "\<exists>pre. ts = pre @ redirections ts"
proof (induction ts rule: redirections.induct)
  case (1 r f ts)
  show ?case
  proof (cases "redirect_op r \<and> isIdent f")
    case True
    with 1 obtain pre where "ts = pre @ redirections ts" by blast
    then have "r # f # ts = (r # f # pre) @ redirections ts" by simp
    with True show ?thesis by (metis redirections.simps(1))
  next
    case False
    then show ?thesis by (metis append_Nil redirections.simps(1))
  qed
qed simp_all

lemma stage_rest_suffix:
  assumes "stage_rest ts = Some rest"
  shows "\<exists>pre. ts = pre @ rest \<and> pre \<noteq> []"
proof -
  from assms obtain w r where ts: "ts = w # r" and rest: "rest = redirections (dropWhile isIdent r)"
    by (cases ts) (auto simp: stage_rest_def split: if_splits)
  obtain pre where "dropWhile isIdent r = pre @ rest"
    using redirections_suffix [of "dropWhile isIdent r"] rest by auto
  then have "r = (takeWhile isIdent r @ pre) @ rest"
    by (metis append.assoc takeWhile_dropWhile_id)
  with ts have "ts = (w # takeWhile isIdent r @ pre) @ rest" by simp
  then show ?thesis by blast
qed

lemma stage_rest_length: "stage_rest ts = Some rest \<Longrightarrow> length rest < length ts"
  using stage_rest_suffix [of ts rest] by (auto simp: neq_Nil_conv)

function piped :: "Token list \<Rightarrow> bool" where
  "piped [] = True"
| "piped (t # ts) =
     (if token_id t = PIPE then
        (case stage_rest ts of None \<Rightarrow> False | Some rest \<Rightarrow> piped rest)
      else token_id t = BG \<and> ts = [])"
  by pat_completeness auto
termination
proof (relation "measure length", goal_cases)
  case 1
  show ?case by simp
next
  case (2 t ts rest)
  then show ?case using stage_rest_length [of ts rest] by simp
qed

definition grammar :: "Token list \<Rightarrow> bool" where
  "grammar ts =
     (list_all lexed ts \<and>
      (case stage_rest ts of
         None \<Rightarrow> False
       | Some rest \<Rightarrow>
           (case rest of
              [] \<Rightarrow> True
            | t # others \<Rightarrow> if token_id t = BG then piped others else piped rest)))"

text \<open>
  What the parser accepts after the words of a stage: any run of \<open>&\<close> and of
  redirections with their file names, and then the end or a pipe and another stage.
\<close>

lemma dropWhile_length: "length (dropWhile P xs) \<le> length xs"
  by (induction xs) auto

function modifiers :: "Token list \<Rightarrow> bool" where
  "modifiers [] = True"
| "modifiers (t # ts) =
     (if token_id t = BG then modifiers ts
      else if redirect_op t then
        (case ts of [] \<Rightarrow> False | f # rest \<Rightarrow> isIdent f \<and> modifiers rest)
      else if token_id t = PIPE then
        (case ts of
           [] \<Rightarrow> False
         | w # rest \<Rightarrow> isIdent w \<and> modifiers (dropWhile isIdent rest))
      else False)"
  by pat_completeness auto
termination
proof (relation "measure length", goal_cases)
  case 1
  show ?case by simp
next
  case (2 t ts)
  then show ?case by simp
next
  case (3 t ts f rest)
  then show ?case by simp
next
  case (4 t ts w rest)
  have "length (dropWhile isIdent rest) \<le> length rest" by (rule dropWhile_length)
  with 4 show ?case by simp
qed

definition accepted :: "Token list \<Rightarrow> bool" where
  "accepted ts =
     (case ts of
        [] \<Rightarrow> False
      | w # rest \<Rightarrow> isIdent w \<and> modifiers (dropWhile isIdent rest))"

text \<open>
  The literal form of a token, and a list of words joined with single spaces: the
  code has no printer for tokens, these two follow the words of the specification's
  round-trip property.
\<close>

definition literal :: "Token \<Rightarrow> string" where
  "literal t =
     (case token_id t of
        IDENT \<Rightarrow> (case str t of None \<Rightarrow> [] | Some s \<Rightarrow> s)
      | PIPE \<Rightarrow> ''|''
      | REDIR_IN \<Rightarrow> ''<''
      | REDIR_OUT \<Rightarrow> ''>''
      | APPEND_OUT \<Rightarrow> ''>>''
      | BG \<Rightarrow> ''&''
      | END \<Rightarrow> [])"

fun joinSpaces :: "string list \<Rightarrow> string" where
  "joinSpaces [] = []"
| "joinSpaces [w] = w"
| "joinSpaces (w # v # ws) = w @ '' '' @ joinSpaces (v # ws)"

text \<open>An operating system on which every \<open>open\<close> and every \<open>pipe\<close> succeeds.\<close>

definition all_ok :: os where
  "all_ok = OS (\<lambda>path. True) (\<lambda>n. True)"

section \<open>Properties of the lexer and the tokenizer\<close>

lemma buildToken_length: "length (snd (buildToken lib s)) \<le> length s"
proof (induction lib s rule: buildToken.induct)
  case (1 lib)
  show ?case by simp
next
  case (2 lib current_char input)
  show ?case
  proof (cases "current_char = CHR '' ''")
    case True
    with 2 show ?thesis by simp
  next
    case False
    then show ?thesis
      by (cases input; cases lib)
         (auto simp: string_front_def simp del: find_first_of.simps split: option.split)
  qed
qed

lemma buildToken_progress:
  "s \<noteq> [] \<Longrightarrow> length (snd (buildToken lib s)) < length s"
proof (cases s)
  case Nil
  assume "s \<noteq> []"
  with Nil show ?thesis by simp
next
  case (Cons c cs)
  have le: "length (snd (buildToken lib cs)) \<le> length cs"
    by (rule buildToken_length)
  show ?thesis
  proof (cases "c = CHR '' ''")
    case True
    with Cons le show ?thesis by simp
  next
    case False
    with Cons show ?thesis
      by (cases cs; cases lib)
         (auto simp: string_front_def simp del: find_first_of.simps split: option.split)
  qed
qed

lemma tokenLoop_returns: "\<exists>r. tokenLoop lib acc s = Some r"
proof (induction "length s" arbitrary: acc s rule: less_induct)
  case less
  obtain res rest where bt: "buildToken lib s = (res, rest)"
    by (cases "buildToken lib s")
  show ?case
  proof (cases res)
    case (Inl f)
    with bt show ?thesis
      by (subst tokenLoop.simps) simp
  next
    case (Inr cur_token)
    show ?thesis
    proof (cases "token_id cur_token = END")
      case True
      with bt Inr show ?thesis
        by (subst tokenLoop.simps) simp
    next
      case False
      have "s \<noteq> []"
        using bt Inr False by (auto simp: make_def)
      then have "length rest < length s"
        using buildToken_progress [of s lib] bt by simp
      then obtain r where "tokenLoop lib (acc @ [cur_token]) rest = Some r"
        using less.hyps by blast
      with bt Inr False show ?thesis
        by (subst tokenLoop.simps) simp
    qed
  qed
qed

text \<open>
  C9. The tokenizer driver terminates on every input string, with either library:
  \<open>tokenList\<close> returns (a token sequence, or the fault at which a checked library
  stops the lexer). Every call of the lexer on a non-empty input leaves a strictly
  shorter input, and on the empty input it returns \<open>END\<close>, on which the loop stops
  with nothing appended.
\<close>

theorem tokenList_terminates:
  "(\<exists>r. tokenList lib commandLine = Some r)
   \<and> (commandLine = [] \<and> buildToken lib commandLine = (Inr (make END), [])
        \<or> length (snd (buildToken lib commandLine)) < length commandLine)
   \<and> tokenLoop lib token_list [] = Some (Inr token_list)"
proof -
  have returns: "\<exists>r. tokenList lib commandLine = Some r"
    unfolding tokenList_def by (rule tokenLoop_returns)
  have progress: "commandLine = [] \<and> buildToken lib commandLine = (Inr (make END), [])
        \<or> length (snd (buildToken lib commandLine)) < length commandLine"
  proof (cases "commandLine = []")
    case True
    then show ?thesis by simp
  next
    case False
    then show ?thesis using buildToken_progress by blast
  qed
  have stops: "tokenLoop lib token_list [] = Some (Inr token_list)"
    by (subst tokenLoop.simps) (simp add: make_def)
  from returns progress stops show ?thesis by blast
qed

lemma find_first_of_none:
  "list_all (\<lambda>c. c \<notin> set chars) w \<Longrightarrow> find_first_of w chars = None"
  by (induction w) simp_all

lemma find_first_of_stop:
  "list_all (\<lambda>c. c \<notin> set chars) w \<Longrightarrow> d \<in> set chars \<Longrightarrow>
   find_first_of (w @ d # rest) chars = Some (length w)"
  by (induction w) simp_all

lemma find_first_of_NoneD:
  "find_first_of s chars = None \<Longrightarrow> list_all (\<lambda>c. c \<notin> set chars) s"
  by (induction s) (auto split: if_splits option.splits)

lemma find_first_of_SomeD:
  "find_first_of s chars = Some i \<Longrightarrow> list_all (\<lambda>c. c \<notin> set chars) (take i s)"
  by (induction s arbitrary: i) (auto split: if_splits option.splits)

lemma buildToken_shaped:
  "buildToken lib s = (Inr t, rest) \<Longrightarrow> token_id t = END \<or> shaped t"
proof (induction lib s rule: buildToken.induct)
  case (1 lib)
  then show ?case by (auto simp: make_def)
next
  case (2 lib current_char input)
  show ?case
  proof (cases "current_char = CHR '' ''")
    case True
    with 2 show ?thesis by simp
  next
    case False
    show ?thesis
    proof (cases "current_char \<in> set ''><|&''")
      case True
      with False 2(2) show ?thesis
        by (cases input; cases lib)
           (auto simp: shaped_def make_def string_front_def split: if_splits)
    next
      case False
      with \<open>current_char \<noteq> CHR '' ''\<close> have c: "current_char \<notin> set '' ><|&''" by simp
      show ?thesis
      proof (cases "find_first_of input '' ><|&''")
        case None
        with c 2(2) find_first_of_NoneD [OF None] show ?thesis
          by (auto simp: shaped_def makeIdent_def word_def simp del: find_first_of.simps)
      next
        case (Some found)
        with c 2(2) find_first_of_SomeD [OF Some] show ?thesis
          by (auto simp: shaped_def makeIdent_def word_def simp del: find_first_of.simps)
      qed
    qed
  qed
qed

lemma tokenLoop_shaped:
  "tokenLoop lib acc s = Some (Inr ts) \<Longrightarrow> list_all shaped acc \<Longrightarrow> list_all shaped ts"
proof (induction "length s" arbitrary: acc s rule: less_induct)
  case less
  obtain res rest where bt: "buildToken lib s = (res, rest)"
    by (cases "buildToken lib s")
  show ?case
  proof (cases res)
    case (Inl f)
    with bt less.prems(1) show ?thesis
      by (subst (asm) tokenLoop.simps) simp
  next
    case (Inr cur_token)
    show ?thesis
    proof (cases "token_id cur_token = END")
      case True
      with bt Inr less.prems show ?thesis
        by (subst (asm) tokenLoop.simps) simp
    next
      case False
      have "s \<noteq> []"
        using bt Inr False by (auto simp: make_def)
      then have shorter: "length rest < length s"
        using buildToken_progress [of s lib] bt by simp
      from bt Inr False have "shaped cur_token"
        using buildToken_shaped [of lib s cur_token rest] by simp
      with less.prems(2) have acc: "list_all shaped (acc @ [cur_token])" by simp
      from less.prems(1) bt Inr False
      have "tokenLoop lib (acc @ [cur_token]) rest = Some (Inr ts)"
        by (subst (asm) tokenLoop.simps) simp
      from less.hyps [OF shorter this acc] show ?thesis .
    qed
  qed
qed

lemma shaped_lexed: "shaped t \<Longrightarrow> lexed t"
  by (cases "token_id t") (auto simp: shaped_def lexed_def split: option.splits)

text \<open>Every token sequence the tokenizer driver returns consists of lexed tokens.\<close>

lemma tokenList_shaped: "tokenList lib s = Some (Inr ts) \<Longrightarrow> list_all shaped ts"
  unfolding tokenList_def using tokenLoop_shaped [of lib "[]" s ts] by simp

lemma tokenList_lexed: "tokenList lib s = Some (Inr ts) \<Longrightarrow> list_all lexed ts"
  using tokenList_shaped [of lib s ts] shaped_lexed by (auto simp: list_all_iff)

text \<open>
  What the lexer does at a \<open>>\<close> that has a character after it, and that leading
  spaces are skipped.
\<close>

lemma buildToken_append_out:
  "buildToken lib (CHR ''>'' # CHR ''>'' # rest) = (Inr (make APPEND_OUT), rest)"
  by (simp add: string_front_def)

lemma buildToken_redir_out:
  "c \<noteq> CHR ''>'' \<Longrightarrow> buildToken lib (CHR ''>'' # c # rest) = (Inr (make REDIR_OUT), c # rest)"
  by (simp add: string_front_def)

lemma buildToken_spaces: "buildToken lib (replicate n (CHR '' '') @ s) = buildToken lib s"
  by (induction n) simp_all

text \<open>
  With the unchecked library the lexer always returns a token, and the tokenizer
  driver a token sequence.
\<close>

lemma buildToken_unchecked: "\<exists>t. fst (buildToken Unchecked s) = Inr t"
proof (induction s)
  case Nil
  show ?case by simp
next
  case (Cons c cs)
  show ?case
  proof (cases "c = CHR '' ''")
    case True
    with Cons show ?thesis by simp
  next
    case False
    then show ?thesis
      by (cases cs) (auto simp: string_front_def simp del: find_first_of.simps split: option.split)
  qed
qed

lemma tokenLoop_unchecked: "\<exists>ts. tokenLoop Unchecked acc s = Some (Inr ts)"
proof (induction "length s" arbitrary: acc s rule: less_induct)
  case less
  obtain res rest where bt: "buildToken Unchecked s = (res, rest)"
    by (cases "buildToken Unchecked s")
  with buildToken_unchecked [of s] obtain cur_token where Inr: "res = Inr cur_token"
    by auto
  show ?case
  proof (cases "token_id cur_token = END")
    case True
    with bt Inr show ?thesis
      by (subst tokenLoop.simps) simp
  next
    case False
    have "s \<noteq> []"
      using bt Inr False by (auto simp: make_def)
    then have "length rest < length s"
      using buildToken_progress [of s Unchecked] bt by simp
    then obtain r where "tokenLoop Unchecked (acc @ [cur_token]) rest = Some (Inr r)"
      using less.hyps by blast
    with bt Inr False show ?thesis
      by (subst tokenLoop.simps) simp
  qed
qed

lemma lone_redirect_unchecked:
  "buildToken Unchecked ''>'' = (Inr (make REDIR_OUT), [])"
  by (simp add: string_front_def)

text \<open>
  C6. The claim: when the first character that is not a space is \<open>>\<close>, the lexer
  returns \<open>AppendOut\<close> if a second \<open>>\<close> follows and \<open>RedirectOut\<close> otherwise, also
  when the \<open>>\<close> is the last character of the input, testing for the end of the input
  before it looks at the next character. The code does not test: on the input \<open>>\<close>
  it erases the character and calls \<open>input.front()\<close> on the empty string, which a
  checked library reports. The same happens when the tokenizer comes to a single
  \<open>>\<close> that ends the command line, as in \<open>ls >\<close>. With the unchecked library the
  read goes past the end of the string all the same; what it finds there is the
  terminating NUL, and the token is \<open>REDIR_OUT\<close> (\<open>lone_redirect_unchecked\<close>).
\<close>

theorem buildToken_lone_redirect:
  "buildToken Checked ''>'' = (Inl FrontOfEmptyString, [])
   \<and> buildToken Checked '' >'' = (Inl FrontOfEmptyString, [])
   \<and> tokenList Checked ''ls >'' = Some (Inl FrontOfEmptyString)"
  by (simp add: tokenList_def tokenLoop.simps makeIdent_def string_front_def)

text \<open>
  Lexing the literal form of a token gives the token back; after \<open>>\<close> this needs a
  character to follow, or the unchecked library, with which the character read after
  the end of the string is its terminating NUL.
\<close>

lemma shaped_cases:
  assumes "shaped t"
  obtains (ident) w where "t = makeIdent w" "word w"
    | (pipe) "t = make PIPE" | (redir_in) "t = make REDIR_IN" | (redir_out) "t = make REDIR_OUT"
    | (append_out) "t = make APPEND_OUT" | (bg) "t = make BG"
  using assms
  by (cases t; cases "token_id t")
     (auto simp: shaped_def make_def makeIdent_def split: option.splits)

lemma buildToken_word_sep:
  assumes "word w" and "d \<in> set '' ><|&''"
  shows "buildToken lib (w @ d # rest) = (Inr (makeIdent w), d # rest)"
proof -
  from assms(1) obtain c cs where w: "w = c # cs" and c: "c \<notin> set '' ><|&''"
    and cs: "list_all (\<lambda>c. c \<notin> set '' ><|&'') cs"
    by (cases w) (auto simp: word_def)
  from cs assms(2) have "find_first_of (cs @ d # rest) '' ><|&'' = Some (length cs)"
    by (rule find_first_of_stop)
  with c show ?thesis unfolding w by simp
qed

lemma buildToken_word_end:
  assumes "word w"
  shows "buildToken lib w = (Inr (makeIdent w), [])"
proof -
  from assms(1) obtain c cs where w: "w = c # cs" and c: "c \<notin> set '' ><|&''"
    and cs: "list_all (\<lambda>c. c \<notin> set '' ><|&'') cs"
    by (cases w) (auto simp: word_def)
  from cs have "find_first_of cs '' ><|&'' = None"
    by (rule find_first_of_none)
  with c show ?thesis unfolding w by simp
qed

lemma relex_sep:
  assumes "shaped t"
  shows "buildToken lib (literal t @ CHR '' '' # rest) = (Inr t, CHR '' '' # rest)"
  using assms
proof (cases t rule: shaped_cases)
  case (ident w)
  then show ?thesis
    using buildToken_word_sep [of w "CHR '' ''" lib rest] by (simp add: literal_def makeIdent_def)
qed (simp_all add: literal_def make_def string_front_def)

lemma relex_end:
  assumes "shaped t" and "lib = Unchecked \<or> token_id t \<noteq> REDIR_OUT"
  shows "buildToken lib (literal t) = (Inr t, [])"
  using assms
proof (cases t rule: shaped_cases)
  case (ident w)
  then show ?thesis
    using buildToken_word_end [of w lib] by (simp add: literal_def makeIdent_def)
qed (auto simp: literal_def make_def string_front_def)

lemma shaped_not_END: "shaped t \<Longrightarrow> token_id t \<noteq> END"
  by (auto simp: shaped_def)

lemma tokenLoop_step:
  "buildToken lib s = (Inr t, rest) \<Longrightarrow> token_id t \<noteq> END \<Longrightarrow>
   tokenLoop lib acc s = tokenLoop lib (acc @ [t]) rest"
  by (subst tokenLoop.simps) simp

lemma tokenLoop_space: "tokenLoop lib acc (CHR '' '' # s) = tokenLoop lib acc s"
  by (subst tokenLoop.simps, subst (2) tokenLoop.simps) simp

lemma tokenLoop_join:
  "list_all shaped ts \<Longrightarrow> ts \<noteq> [] \<Longrightarrow> lib = Unchecked \<or> token_id (last ts) \<noteq> REDIR_OUT \<Longrightarrow>
   tokenLoop lib acc (joinSpaces (map literal ts)) = Some (Inr (acc @ ts))"
proof (induction ts arbitrary: acc)
  case Nil
  then show ?case by simp
next
  case (Cons t ts)
  then have t: "shaped t" by simp
  show ?case
  proof (cases ts)
    case Nil
    with Cons.prems have "buildToken lib (literal t) = (Inr t, [])"
      using relex_end [of t lib] by simp
    then have "tokenLoop lib acc (literal t) = tokenLoop lib (acc @ [t]) []"
      using shaped_not_END [OF t] by (rule tokenLoop_step)
    also have "\<dots> = Some (Inr (acc @ [t]))"
      by (subst tokenLoop.simps) (simp add: make_def)
    finally show ?thesis using Nil by simp
  next
    case (Cons v ws)
    let ?J = "joinSpaces (map literal ts)"
    have join: "joinSpaces (map literal (t # ts)) = literal t @ CHR '' '' # ?J"
      using Cons by simp
    have "tokenLoop lib acc (literal t @ CHR '' '' # ?J) = tokenLoop lib (acc @ [t]) (CHR '' '' # ?J)"
      using relex_sep [OF t] shaped_not_END [OF t] by (rule tokenLoop_step)
    also have "\<dots> = tokenLoop lib (acc @ [t]) ?J"
      by (rule tokenLoop_space)
    also have "\<dots> = Some (Inr ((acc @ [t]) @ ts))"
      using Cons.prems Cons by (intro Cons.IH) simp_all
    finally show ?thesis using join by simp
  qed
qed

text \<open>
  The round trip holds for every command line with the unchecked library, and with
  the checked one unless the last token is \<open>>\<close>: there the lexer is stopped on the
  joined line, at the read that C6 is about.
\<close>

lemma roundtrip_of_tokens:
  assumes "tokenList lib s = Some (Inr ts)"
    and "lib = Unchecked \<or> ts = [] \<or> token_id (last ts) \<noteq> REDIR_OUT"
  shows "tokenList lib (joinSpaces (map literal ts)) = Some (Inr ts)"
proof (cases "ts = []")
  case True
  then show ?thesis
    by (simp add: tokenList_def tokenLoop.simps make_def)
next
  case False
  from assms(1) have "list_all shaped ts"
    unfolding tokenList_def using tokenLoop_shaped [of lib "[]" s ts] by simp
  with False assms(2) show ?thesis
    unfolding tokenList_def using tokenLoop_join [of ts lib "[]"] by simp
qed

text \<open>
  C8. Round-trip tokenization: for every input string, the tokenizer driver returns a
  token sequence, and the literal forms of these tokens joined with single spaces are
  a command line that tokenizes to the same token sequence. This is the result that
  the code returns in an ordinary build; when the last token is \<open>>\<close>, the joined line
  ends in \<open>>\<close> and the lexer reads the character after the end of the string on it,
  which is the missing test of C6 and does not change the tokens.
\<close>

theorem roundtrip_tokenization:
  "\<exists>ts. tokenList Unchecked s = Some (Inr ts)
     \<and> tokenList Unchecked (joinSpaces (map literal ts)) = Some (Inr ts)"
proof -
  obtain ts where ts: "tokenList Unchecked s = Some (Inr ts)"
    unfolding tokenList_def using tokenLoop_unchecked [of "[]" s] by blast
  then have "tokenList Unchecked (joinSpaces (map literal ts)) = Some (Inr ts)"
    by (rule roundtrip_of_tokens) simp
  with ts show ?thesis by blast
qed

text \<open>
  An instance is \<open>ls > \<close>, with a space at its end: its tokens are \<open>ls\<close> and
  \<open>>\<close>, the joined line is \<open>ls >\<close>, and it has the same two tokens.
\<close>

theorem roundtrip_tokenization_witness:
  "tokenList Unchecked ''ls > '' = Some (Inr [makeIdent ''ls'', make REDIR_OUT])
   \<and> joinSpaces (map literal [makeIdent ''ls'', make REDIR_OUT]) = ''ls >''
   \<and> tokenList Unchecked ''ls >'' = Some (Inr [makeIdent ''ls'', make REDIR_OUT])"
  using roundtrip_tokenization [of "''ls > ''"]
  by (simp add: tokenList_def tokenLoop.simps make_def makeIdent_def literal_def
        string_front_def)

section \<open>Token equality\<close>

text \<open>On the tokens the lexer produces, \<open>==\<close> is equality of kind and string.\<close>

lemma Token_eq_shaped: "shaped a \<Longrightarrow> shaped b \<Longrightarrow> Token_eq a b = (a = b)"
  by (cases a; cases b; cases "token_id a"; cases "token_id b")
     (auto simp: Token_eq_def shaped_def split: option.splits)

text \<open>
  C10. The claim: \<open>a == b\<close> holds exactly when the kinds are equal and the payloads are
  equal (both absent, or both present and equal), hence \<open>==\<close> is symmetric. The code
  breaks both on \<open>a = Token::makeIdent("x")\<close> and \<open>b = Token::make(TokenId::IDENT)\<close>:
  the kinds agree, \<open>a\<close> has a string and \<open>b\<close> has none, yet \<open>a == b\<close> is true (the
  second branch compares the kinds only), while \<open>b == a\<close> is false (the first
  branch also requires the other string to be absent).
\<close>

theorem Token_eq_not_structural:
  "Token_eq (makeIdent ''x'') (make IDENT)
   \<and> \<not> Token_eq (make IDENT) (makeIdent ''x'')
   \<and> token_id (makeIdent ''x'') = token_id (make IDENT)
   \<and> str (makeIdent ''x'') = Some ''x'' \<and> str (make IDENT) = None"
  by (simp add: Token_eq_def make_def makeIdent_def)

section \<open>Basic facts about the parser\<close>

text \<open>
  The argument loop on a vector whose front is \<open>peek\<close>: it takes the identifiers at
  the front. When nothing but identifiers is left, it reads the front of the emptied
  vector: the checked library stops there, and with the unchecked one the token read
  is the identifier erased last and the loop ends at its test for the empty vector.
\<close>

lemma collectArgs_spec:
  "ts \<noteq> [] \<Longrightarrow> peek = hd ts \<Longrightarrow>
   collectArgs lib peek as ts =
     (if list_all isIdent ts \<and> lib = Checked then Inl FrontOfEmptyVector
      else Inr (as @ map str (takeWhile isIdent ts), dropWhile isIdent ts))"
proof (induction ts arbitrary: peek as)
  case Nil
  then show ?case by simp
next
  case (Cons t rest)
  then have peek: "peek = t" by simp
  show ?case
  proof (cases "token_id t = IDENT")
    case False
    with peek show ?thesis by (simp add: isIdent_def)
  next
    case True
    then have ident: "isIdent t" by (simp add: isIdent_def)
    show ?thesis
    proof (cases rest)
      case Nil
      with True peek show ?thesis
        by (cases lib) (simp_all add: isIdent_def vector_front_def)
    next
      case (Cons peek' rest')
      have step: "collectArgs lib peek as (t # rest) = collectArgs lib peek' (as @ [str t]) rest"
        using True peek Cons by (simp add: vector_front_def)
      have "rest \<noteq> []" "peek' = hd rest"
        using Cons by simp_all
      then have ih: "collectArgs lib peek' (as @ [str t]) rest =
        (if list_all isIdent rest \<and> lib = Checked then Inl FrontOfEmptyVector
         else Inr ((as @ [str t]) @ map str (takeWhile isIdent rest), dropWhile isIdent rest))"
        by (rule Cons.IH)
      show ?thesis
        unfolding step ih using ident by simp
    qed
  qed
qed

text \<open>
  The case \<open>IDENT\<close> as a whole, from the read of \<open>peek\<close> on: what is left of the
  vector are the tokens from the first one that is no identifier.
\<close>

lemma collectArgs_front:
  assumes "vector_front lib erased tokens = Inr peek"
  shows "collectArgs lib peek as tokens =
     (if tokens \<noteq> [] \<and> list_all isIdent tokens \<and> lib = Checked then Inl FrontOfEmptyVector
      else Inr (as @ map str (takeWhile isIdent tokens), dropWhile isIdent tokens))"
proof (cases tokens)
  case Nil
  then show ?thesis by simp
next
  case (Cons t rest)
  with assms have "peek = hd tokens" "tokens \<noteq> []" by (simp_all add: vector_front_def)
  then show ?thesis using collectArgs_spec [of tokens peek lib as] by simp
qed

lemma collectArgs_rest:
  assumes "vector_front lib erased tokens = Inr peek"
    and "collectArgs lib peek as tokens = Inr (as', rest)"
  shows "rest = dropWhile isIdent tokens"
  using assms(2) collectArgs_front [OF assms(1), of as]
  by (simp split: if_splits)

lemma vector_front_unchecked: "\<exists>peek. vector_front Unchecked erased tokens = Inr peek"
  by (cases tokens) (simp_all add: vector_front_def)

lemma redirTarget_Some:
  "redirTarget ts = Inr (Some (f, rest)) \<Longrightarrow>
   \<exists>peek. ts = peek # rest \<and> token_id peek = IDENT \<and> str peek = Some f"
  by (cases ts) (auto simp: redirTarget_def split: if_splits option.splits)

lemma list_all_dropWhile: "list_all P ts \<Longrightarrow> list_all P (dropWhile Q ts)"
  by (induction ts) auto

lemma hasPipe_dropWhile: "hasPipe (dropWhile isIdent ts) = hasPipe ts"
  by (induction ts) (auto simp: isIdent_def hasPipe_def)

lemma stages_nonempty: "stages c \<noteq> []"
  by (cases c rule: stages.cases) simp_all

lemma stages_single: "pipe_to c = None \<Longrightarrow> stages c = [c]"
  by (cases c rule: stages.cases) simp_all

section \<open>The parser rejects\<close>

lemma doomed_not_all_ident: "doomed ts \<Longrightarrow> \<not> list_all isIdent ts"
proof (induction ts rule: dangling_redirect.induct)
  case 1
  then show ?case by (simp add: doomed_def)
next
  case (2 t)
  then show ?case by (auto simp: doomed_def isIdent_def redirect_op_def)
next
  case (3 t n ts)
  then show ?case by (auto simp: doomed_def isIdent_def redirect_op_def)
qed

lemma doomed_ident: "token_id t = IDENT \<Longrightarrow> doomed (t # ts) \<Longrightarrow> doomed ts"
  by (cases ts) (auto simp: doomed_def redirect_op_def)

lemma doomed_dropWhile: "doomed ts \<Longrightarrow> doomed (dropWhile isIdent ts)"
proof (induction ts)
  case Nil
  then show ?case by simp
next
  case (Cons t ts)
  show ?case
  proof (cases "isIdent t")
    case True
    with Cons show ?thesis using doomed_ident [of t ts] by (simp add: isIdent_def)
  next
    case False
    with Cons show ?thesis by simp
  qed
qed

lemma doomed_bg: "token_id t = BG \<Longrightarrow> doomed (t # ts) \<Longrightarrow> doomed ts"
  by (cases ts) (auto simp: doomed_def redirect_op_def)

lemma doomed_pipe: "token_id t = PIPE \<Longrightarrow> doomed (t # ts) \<Longrightarrow> ts = [] \<or> doomed ts"
  by (cases ts) (auto simp: doomed_def redirect_op_def)

lemma doomed_redirect:
  "redirect_op t \<Longrightarrow> doomed (t # ts) \<Longrightarrow> list_all lexed ts \<Longrightarrow>
   redirTarget ts = Inr None \<or> (\<exists>f rest. redirTarget ts = Inr (Some (f, rest)) \<and> doomed rest \<and> list_all lexed rest)"
proof (cases ts)
  case Nil
  then show ?thesis by (simp add: redirTarget_def)
next
  case (Cons n rest)
  assume a: "redirect_op t" "doomed (t # ts)" "list_all lexed ts"
  show ?thesis
  proof (cases "token_id n = IDENT")
    case False
    with Cons show ?thesis by (simp add: redirTarget_def)
  next
    case True
    with a Cons obtain f where f: "str n = Some f" by (auto simp: lexed_def)
    from a Cons True have "doomed (n # rest)"
      by (auto simp: doomed_def)
    with True have "doomed rest" by (rule doomed_ident)
    with f True Cons a show ?thesis by (simp add: redirTarget_def)
  qed
qed

lemma rejects_aux:
  shows "list_all lexed ts \<Longrightarrow> doomed ts \<Longrightarrow> buildCommands lib ts = Inr None"
    and "list_all lexed (cur # ts2) \<Longrightarrow> doomed (cur # ts2) \<Longrightarrow> buildLoop lib cmd cur ts2 = Inr None"
    and "list_all lexed ts3 \<Longrightarrow> doomed ts3 \<Longrightarrow> loopTail lib cmd3 ts3 = Inr None"
proof (induction lib ts and lib cmd cur ts2 and lib cmd3 ts3
    rule: buildCommands_buildLoop_loopTail.induct)
  case (1 lib)
  then show ?case by simp
next
  case (2 lib cur_token tokens)
  then show ?case by simp
next
  case (3 lib c a b ap ri ro p cur_token tokens)
  note lex = \<open>list_all lexed (cur_token # tokens)\<close>
  note doom = \<open>doomed (cur_token # tokens)\<close>
  from lex have lex': "list_all lexed tokens" by simp
  show ?case
  proof (cases "token_id cur_token")
    case IDENT
    from IDENT doom have d: "doomed tokens" by (rule doomed_ident)
    then obtain peek rest0 where tk: "tokens = peek # rest0"
      by (cases tokens) (auto simp: doomed_def)
    then have vf: "vector_front lib cur_token tokens = Inr peek"
      by (simp add: vector_front_def)
    from IDENT lex obtain name where name: "str cur_token = Some name"
      by (auto simp: lexed_def)
    have ca: "collectArgs lib peek [str cur_token] tokens =
        Inr ([str cur_token] @ map str (takeWhile isIdent tokens), dropWhile isIdent tokens)"
      using collectArgs_front [OF vf, of "[str cur_token]"] doomed_not_all_ident [OF d]
      by simp
    have lexr: "list_all lexed (dropWhile isIdent tokens)"
      using lex' by (rule list_all_dropWhile)
    have "loopTail lib (Command (Some name) (Some ([str cur_token] @ map str (takeWhile isIdent tokens))) b ap ri ro p)
            (dropWhile isIdent tokens) = Inr None"
      using "3.IH"(1) [OF IDENT vf name ca refl lexr doomed_dropWhile [OF d]] .
    then show ?thesis
      using IDENT vf name ca by simp
  next
    case PIPE
    from doomed_pipe [OF PIPE doom] show ?thesis
    proof
      assume "tokens = []"
      with PIPE show ?thesis by simp
    next
      assume "doomed tokens"
      with "3.IH"(2) [OF PIPE lex'] have "buildCommands lib tokens = Inr None" .
      with PIPE show ?thesis by simp
    qed
  next
    case REDIR_IN
    then have "redirect_op cur_token" by (simp add: redirect_op_def)
    from doomed_redirect [OF this doom lex'] show ?thesis
    proof (elim disjE exE conjE)
      assume "redirTarget tokens = Inr None"
      with REDIR_IN show ?thesis by simp
    next
      fix f rest
      assume rt: "redirTarget tokens = Inr (Some (f, rest))" and d: "doomed rest" and l: "list_all lexed rest"
      have "loopTail lib (Command c a b ap (Some f) ro p) rest = Inr None"
        using "3.IH"(3) [OF REDIR_IN rt refl refl l d] .
      with REDIR_IN rt show ?thesis by simp
    qed
  next
    case REDIR_OUT
    then have "redirect_op cur_token" by (simp add: redirect_op_def)
    from doomed_redirect [OF this doom lex'] show ?thesis
    proof (elim disjE exE conjE)
      assume "redirTarget tokens = Inr None"
      with REDIR_OUT show ?thesis by simp
    next
      fix f rest
      assume rt: "redirTarget tokens = Inr (Some (f, rest))" and d: "doomed rest" and l: "list_all lexed rest"
      have "loopTail lib (Command c a b ap ri (Some f) p) rest = Inr None"
        using "3.IH"(4) [OF REDIR_OUT rt refl refl l d] .
      with REDIR_OUT rt show ?thesis by simp
    qed
  next
    case APPEND_OUT
    then have "redirect_op cur_token" by (simp add: redirect_op_def)
    from doomed_redirect [OF this doom lex'] show ?thesis
    proof (elim disjE exE conjE)
      assume "redirTarget tokens = Inr None"
      with APPEND_OUT show ?thesis by simp
    next
      fix f rest
      assume rt: "redirTarget tokens = Inr (Some (f, rest))" and d: "doomed rest" and l: "list_all lexed rest"
      have "loopTail lib (Command c a b (Some True) ri (Some f) p) rest = Inr None"
        using "3.IH"(5) [OF APPEND_OUT rt refl refl l d] .
      with APPEND_OUT rt show ?thesis by simp
    qed
  next
    case BG
    from BG doom have "doomed tokens" by (rule doomed_bg)
    with "3.IH"(6) [OF BG lex'] have "loopTail lib (Command c a True ap ri ro p) tokens = Inr None" .
    with BG show ?thesis by simp
  next
    case END
    with lex show ?thesis by (simp add: lexed_def)
  qed
next
  case (4 lib cmd)
  then show ?case by (simp add: doomed_def)
next
  case (5 lib cmd cur_token tokens)
  then show ?case by simp
qed

text \<open>
  C2, as the code has it. The parser returns the null pointer for the empty token
  sequence and for every sequence whose first token is not an identifier. On token
  sequences as the tokenizer produces them (\<open>lexed\<close>: no \<open>END\<close> inside, a string on
  every identifier) it also returns the null pointer for every sequence that ends in
  a pipe and for every sequence in which \<open><\<close>, \<open>>\<close> or \<open>>>\<close> is followed by a token
  that is not an identifier or by the end of the sequence. This holds with either
  library: the parser reads no empty vector on these sequences.
\<close>

theorem buildCommands_rejects:
  assumes "tokens = [] \<or> token_id (hd tokens) \<noteq> IDENT
     \<or> list_all lexed tokens \<and> (token_id (last tokens) = PIPE \<or> dangling_redirect tokens)"
  shows "buildCommands lib tokens = Inr None"
proof (cases tokens)
  case Nil
  then show ?thesis by simp
next
  case (Cons cur_token rest)
  show ?thesis
  proof (cases "token_id cur_token = IDENT")
    case False
    with Cons show ?thesis by simp
  next
    case True
    with Cons assms have "list_all lexed tokens" "doomed tokens"
      by (auto simp: doomed_def)
    then show ?thesis by (rule rejects_aux(1))
  qed
qed

theorem buildCommands_rejects_witness:
  "list_all lexed [makeIdent ''test'', makeIdent ''hoi'', make PIPE]
   \<and> token_id (last [makeIdent ''test'', makeIdent ''hoi'', make PIPE]) = PIPE
   \<and> buildCommands Unchecked [makeIdent ''test'', makeIdent ''hoi'', make PIPE] = Inr None
   \<and> buildCommands Checked [makeIdent ''test'', makeIdent ''hoi'', make PIPE] = Inr None
   \<and> list_all lexed [makeIdent ''ja'', make REDIR_OUT]
   \<and> dangling_redirect [makeIdent ''ja'', make REDIR_OUT]
   \<and> buildCommands Unchecked [makeIdent ''ja'', make REDIR_OUT] = Inr None
   \<and> buildCommands Checked [makeIdent ''ja'', make REDIR_OUT] = Inr None
   \<and> token_id (hd [make PIPE]) \<noteq> IDENT
   \<and> buildCommands Unchecked [make PIPE] = Inr None"
  using buildCommands_rejects [of "[makeIdent ''test'', makeIdent ''hoi'', make PIPE]" Unchecked]
    buildCommands_rejects [of "[makeIdent ''test'', makeIdent ''hoi'', make PIPE]" Checked]
    buildCommands_rejects [of "[makeIdent ''ja'', make REDIR_OUT]" Unchecked]
    buildCommands_rejects [of "[makeIdent ''ja'', make REDIR_OUT]" Checked]
    buildCommands_rejects [of "[make PIPE]" Unchecked]
  by (simp add: lexed_def make_def makeIdent_def redirect_op_def)

text \<open>
  The claim C2 as it is stated, for every token sequence, fails on sequences that the
  tokenizer never produces. When the loop comes to an \<open>END\<close> it returns the chain
  built so far and does not look at the tokens after it: the sequences \<open>ls END |\<close>
  and \<open>ls END >\<close> are parsed with success although the first ends in a pipe and the
  second in a redirection with nothing after it. And an \<open>IDENT\<close> made by
  \<open>Token::make\<close> has no string to take the command name from: on such a token
  followed by a pipe the parser dereferences the null pointer.
\<close>

theorem buildCommands_rejects_counterexample:
  "buildCommands Unchecked [makeIdent ''ls'', make END, make PIPE]
     = Inr (Some (Command (Some ''ls'') (Some [Some ''ls'']) False None None None None))
   \<and> buildCommands Checked [makeIdent ''ls'', make END, make PIPE]
     = Inr (Some (Command (Some ''ls'') (Some [Some ''ls'']) False None None None None))
   \<and> token_id (last [makeIdent ''ls'', make END, make PIPE]) = PIPE
   \<and> buildCommands Unchecked [makeIdent ''ls'', make END, make REDIR_OUT]
     = Inr (Some (Command (Some ''ls'') (Some [Some ''ls'']) False None None None None))
   \<and> buildCommands Checked [makeIdent ''ls'', make END, make REDIR_OUT]
     = Inr (Some (Command (Some ''ls'') (Some [Some ''ls'']) False None None None None))
   \<and> dangling_redirect [makeIdent ''ls'', make END, make REDIR_OUT]
   \<and> buildCommands Unchecked [make IDENT, make PIPE] = Inl NullDereference
   \<and> buildCommands Checked [make IDENT, make PIPE] = Inl NullDereference
   \<and> token_id (last [make IDENT, make PIPE]) = PIPE"
  by (simp add: make_def makeIdent_def newCommand_def redirect_op_def vector_front_def)

section \<open>The parser on well-formed command lines\<close>

text \<open>
  Every chain the parser returns has one node more than the token sequence has pipes
  (an \<open>END\<close> inside the sequence would end the parse early).
\<close>

lemma count_pipes_dropWhile: "count_pipes (dropWhile isIdent ts) = count_pipes ts"
  by (induction ts) (auto simp: count_pipes_def isIdent_def)

lemma count_pipes_Cons:
  "count_pipes (t # ts) = (if token_id t = PIPE then Suc (count_pipes ts) else count_pipes ts)"
  by (simp add: count_pipes_def)

lemma stage_count:
  shows "buildCommands lib ts = Inr (Some r) \<Longrightarrow> list_all notEnd ts \<Longrightarrow>
           length (stages r) = Suc (count_pipes ts)"
    and "buildLoop lib cmd cur ts2 = Inr (Some r) \<Longrightarrow> list_all notEnd (cur # ts2) \<Longrightarrow>
           pipe_to cmd = None \<Longrightarrow> length (stages r) = Suc (count_pipes (cur # ts2))"
    and "loopTail lib cmd3 ts3 = Inr (Some r) \<Longrightarrow> list_all notEnd ts3 \<Longrightarrow>
           pipe_to cmd3 = None \<Longrightarrow> length (stages r) = Suc (count_pipes ts3)"
proof (induction lib ts and lib cmd cur ts2 and lib cmd3 ts3 arbitrary: r and r and r
    rule: buildCommands_buildLoop_loopTail.induct)
  case (1 lib)
  then show ?case by simp
next
  case (2 lib cur_token tokens)
  from "2.prems"(1) have id: "\<not> token_id cur_token \<noteq> IDENT"
    and bl: "buildLoop lib newCommand cur_token tokens = Inr (Some r)"
    by (simp_all split: if_splits)
  from "2.IH" [OF id bl "2.prems"(2)] show ?case by (simp add: newCommand_def)
next
  case (3 lib c a b ap ri ro p cur_token tokens)
  note res = \<open>buildLoop lib (Command c a b ap ri ro p) cur_token tokens = Inr (Some r)\<close>
  from "3.prems"(3) have p: "p = None" by simp
  from "3.prems"(2) have ne: "list_all notEnd tokens" and nc: "notEnd cur_token" by simp_all
  show ?case
  proof (cases "token_id cur_token")
    case IDENT
    from res IDENT obtain peek name args' rest where
      vf: "vector_front lib cur_token tokens = Inr peek" and name: "str cur_token = Some name"
      and ca: "collectArgs lib peek [str cur_token] tokens = Inr (args', rest)"
      and lt: "loopTail lib (Command (Some name) (Some args') b ap ri ro p) rest = Inr (Some r)"
      by (auto simp del: collectArgs.simps split: option.splits sum.splits)
    from vf ca have rest: "rest = dropWhile isIdent tokens"
      by (rule collectArgs_rest)
    with ne have "list_all notEnd rest" by (simp add: list_all_dropWhile)
    from "3.IH"(1) [OF IDENT vf name ca refl lt this] p rest IDENT show ?thesis
      by (simp add: count_pipes_dropWhile count_pipes_Cons)
  next
    case PIPE
    from res PIPE obtain n where bc: "buildCommands lib tokens = Inr (Some n)"
      and r: "r = Command c a b ap ri ro (Some n)"
      by (auto split: sum.splits option.splits)
    from "3.IH"(2) [OF PIPE bc ne] r PIPE show ?thesis
      by (simp add: count_pipes_Cons)
  next
    case REDIR_IN
    from res REDIR_IN obtain f rest where rt: "redirTarget tokens = Inr (Some (f, rest))"
      and lt: "loopTail lib (Command c a b ap (Some f) ro p) rest = Inr (Some r)"
      by (auto split: sum.splits option.splits)
    from redirTarget_Some [OF rt] obtain peek where tk: "tokens = peek # rest"
      and pk: "token_id peek = IDENT" by blast
    from ne tk have "list_all notEnd rest" by simp
    from "3.IH"(3) [OF REDIR_IN rt refl refl lt this] p tk pk REDIR_IN show ?thesis
      by (simp add: count_pipes_Cons)
  next
    case REDIR_OUT
    from res REDIR_OUT obtain f rest where rt: "redirTarget tokens = Inr (Some (f, rest))"
      and lt: "loopTail lib (Command c a b ap ri (Some f) p) rest = Inr (Some r)"
      by (auto split: sum.splits option.splits)
    from redirTarget_Some [OF rt] obtain peek where tk: "tokens = peek # rest"
      and pk: "token_id peek = IDENT" by blast
    from ne tk have "list_all notEnd rest" by simp
    from "3.IH"(4) [OF REDIR_OUT rt refl refl lt this] p tk pk REDIR_OUT show ?thesis
      by (simp add: count_pipes_Cons)
  next
    case APPEND_OUT
    from res APPEND_OUT obtain f rest where rt: "redirTarget tokens = Inr (Some (f, rest))"
      and lt: "loopTail lib (Command c a b (Some True) ri (Some f) p) rest = Inr (Some r)"
      by (auto split: sum.splits option.splits)
    from redirTarget_Some [OF rt] obtain peek where tk: "tokens = peek # rest"
      and pk: "token_id peek = IDENT" by blast
    from ne tk have "list_all notEnd rest" by simp
    from "3.IH"(5) [OF APPEND_OUT rt refl refl lt this] p tk pk APPEND_OUT show ?thesis
      by (simp add: count_pipes_Cons)
  next
    case BG
    with res have lt: "loopTail lib (Command c a True ap ri ro p) tokens = Inr (Some r)" by simp
    from "3.IH"(6) [OF BG lt ne] p BG show ?thesis by (simp add: count_pipes_Cons)
  next
    case END
    with nc show ?thesis by (simp add: notEnd_def)
  qed
next
  case (4 lib cmd)
  from "4.prems"(1) have "r = cmd" by (simp split: if_splits)
  with "4.prems"(3) show ?case by (simp add: stages_single count_pipes_def)
next
  case (5 lib cmd cur_token tokens)
  from "5.prems"(1) have "buildLoop lib cmd cur_token tokens = Inr (Some r)" by simp
  from "5.IH" [OF this "5.prems"(2,3)] show ?case .
qed

text \<open>
  With the unchecked library the parser accepts every token sequence that consists of
  the words of a stage and of what may follow them.
\<close>

lemma modifiers_not_ident: "modifiers (t # ts) \<Longrightarrow> \<not> isIdent t"
  by (auto simp: isIdent_def redirect_op_def split: if_splits)

lemma parser_accepts:
  shows "lib = Unchecked \<Longrightarrow> list_all lexed ts \<Longrightarrow> accepted ts \<Longrightarrow>
           \<exists>r. buildCommands lib ts = Inr (Some r)"
    and "lib = Unchecked \<Longrightarrow> list_all lexed (cur # ts2) \<Longrightarrow>
           (if isIdent cur then accepted (cur # ts2)
            else command cmd \<noteq> None \<and> modifiers (cur # ts2)) \<Longrightarrow>
           \<exists>r. buildLoop lib cmd cur ts2 = Inr (Some r)"
    and "lib = Unchecked \<Longrightarrow> list_all lexed ts3 \<Longrightarrow> command cmd3 \<noteq> None \<Longrightarrow> modifiers ts3 \<Longrightarrow>
           \<exists>r. loopTail lib cmd3 ts3 = Inr (Some r)"
proof (induction lib ts and lib cmd cur ts2 and lib cmd3 ts3
    rule: buildCommands_buildLoop_loopTail.induct)
  case (1 lib)
  then show ?case by (simp add: accepted_def)
next
  case (2 lib cur_token tokens)
  from "2.prems"(3) have id: "isIdent cur_token" by (simp add: accepted_def)
  then have nid: "\<not> token_id cur_token \<noteq> IDENT" by (simp add: isIdent_def)
  from "2.IH" [OF nid "2.prems"(1,2)] id "2.prems"(3)
  obtain r where "buildLoop lib newCommand cur_token tokens = Inr (Some r)" by auto
  with nid show ?case by simp
next
  case (3 lib c a b ap ri ro p cur_token tokens)
  note un = \<open>lib = Unchecked\<close>
  note lex = \<open>list_all lexed (cur_token # tokens)\<close>
  from lex have lex': "list_all lexed tokens" by simp
  note pre = "3.prems"(3)
  show ?case
  proof (cases "token_id cur_token")
    case IDENT
    then have id: "isIdent cur_token" by (simp add: isIdent_def)
    with pre have ok: "modifiers (dropWhile isIdent tokens)"
      by (simp add: accepted_def)
    from un obtain peek where vf: "vector_front lib cur_token tokens = Inr peek"
      using vector_front_unchecked by blast
    from IDENT lex obtain name where name: "str cur_token = Some name"
      by (auto simp: lexed_def)
    have ca: "collectArgs lib peek [str cur_token] tokens =
        Inr ([str cur_token] @ map str (takeWhile isIdent tokens), dropWhile isIdent tokens)"
      using collectArgs_front [OF vf, of "[str cur_token]"] un by simp
    have lexr: "list_all lexed (dropWhile isIdent tokens)"
      using lex' by (rule list_all_dropWhile)
    have "\<exists>r. loopTail lib (Command (Some name) (Some ([str cur_token] @ map str (takeWhile isIdent tokens))) b ap ri ro p)
            (dropWhile isIdent tokens) = Inr (Some r)"
      using "3.IH"(1) [OF IDENT vf name ca refl un lexr _ ok] by simp
    then show ?thesis
      using IDENT vf name ca by simp
  next
    case PIPE
    with pre have mo: "modifiers (cur_token # tokens)"
      by (simp add: isIdent_def del: modifiers.simps)
    with PIPE have "accepted tokens"
      by (cases tokens) (auto simp: accepted_def redirect_op_def)
    from "3.IH"(2) [OF PIPE un lex' this] obtain n where "buildCommands lib tokens = Inr (Some n)"
      by blast
    with PIPE show ?thesis by simp
  next
    case REDIR_IN
    with pre have cm: "c \<noteq> None" and mo: "modifiers (cur_token # tokens)"
      by (simp_all add: isIdent_def del: modifiers.simps)
    from mo REDIR_IN obtain f rest where tk: "tokens = f # rest" and f: "isIdent f"
      and ok: "modifiers rest"
      by (cases tokens) (auto simp: redirect_op_def)
    from f lex' tk obtain fname where "str f = Some fname" by (auto simp: lexed_def isIdent_def)
    with tk f have rt: "redirTarget tokens = Inr (Some (fname, rest))"
      by (simp add: redirTarget_def isIdent_def)
    from lex' tk have "list_all lexed rest" by simp
    from "3.IH"(3) [OF REDIR_IN rt refl refl un this _ ok] cm
    obtain r where "loopTail lib (Command c a b ap (Some fname) ro p) rest = Inr (Some r)" by auto
    with REDIR_IN rt show ?thesis by simp
  next
    case REDIR_OUT
    with pre have cm: "c \<noteq> None" and mo: "modifiers (cur_token # tokens)"
      by (simp_all add: isIdent_def del: modifiers.simps)
    from mo REDIR_OUT obtain f rest where tk: "tokens = f # rest" and f: "isIdent f"
      and ok: "modifiers rest"
      by (cases tokens) (auto simp: redirect_op_def)
    from f lex' tk obtain fname where "str f = Some fname" by (auto simp: lexed_def isIdent_def)
    with tk f have rt: "redirTarget tokens = Inr (Some (fname, rest))"
      by (simp add: redirTarget_def isIdent_def)
    from lex' tk have "list_all lexed rest" by simp
    from "3.IH"(4) [OF REDIR_OUT rt refl refl un this _ ok] cm
    obtain r where "loopTail lib (Command c a b ap ri (Some fname) p) rest = Inr (Some r)" by auto
    with REDIR_OUT rt show ?thesis by simp
  next
    case APPEND_OUT
    with pre have cm: "c \<noteq> None" and mo: "modifiers (cur_token # tokens)"
      by (simp_all add: isIdent_def del: modifiers.simps)
    from mo APPEND_OUT obtain f rest where tk: "tokens = f # rest" and f: "isIdent f"
      and ok: "modifiers rest"
      by (cases tokens) (auto simp: redirect_op_def)
    from f lex' tk obtain fname where "str f = Some fname" by (auto simp: lexed_def isIdent_def)
    with tk f have rt: "redirTarget tokens = Inr (Some (fname, rest))"
      by (simp add: redirTarget_def isIdent_def)
    from lex' tk have "list_all lexed rest" by simp
    from "3.IH"(5) [OF APPEND_OUT rt refl refl un this _ ok] cm
    obtain r where "loopTail lib (Command c a b (Some True) ri (Some fname) p) rest = Inr (Some r)"
      by auto
    with APPEND_OUT rt show ?thesis by simp
  next
    case BG
    with pre have cm: "c \<noteq> None" and mo: "modifiers tokens"
      by (simp_all add: isIdent_def)
    from "3.IH"(6) [OF BG un lex' _ mo] cm
    obtain r where "loopTail lib (Command c a True ap ri ro p) tokens = Inr (Some r)" by auto
    with BG show ?thesis by simp
  next
    case END
    with pre show ?thesis by (simp add: isIdent_def redirect_op_def)
  qed
next
  case (4 lib cmd)
  then show ?case by simp
next
  case (5 lib cmd cur_token tokens)
  from "5.prems"(4) have "\<not> isIdent cur_token" by (rule modifiers_not_ident)
  with "5.IH" [OF "5.prems"(1,2)] "5.prems"(3,4) show ?case by simp
qed

text \<open>Every token sequence of the grammar is one of these.\<close>

lemma modifiers_redirections: "modifiers (redirections ts) \<Longrightarrow> modifiers ts"
proof (induction ts rule: redirections.induct)
  case (1 r f ts)
  show ?case
  proof (cases "redirect_op r \<and> isIdent f")
    case True
    with 1 have "modifiers ts" by simp
    with True show ?thesis by (auto simp: redirect_op_def)
  next
    case False
    with 1(2) show ?thesis by (simp del: modifiers.simps)
  qed
qed simp_all

lemma stage_accepted:
  assumes "stage_rest ts = Some rest" and "modifiers rest"
  shows "accepted ts"
proof -
  from assms(1) obtain w r where ts: "ts = w # r" and w: "isIdent w"
    and rest: "rest = redirections (dropWhile isIdent r)"
    by (cases ts) (auto simp: stage_rest_def split: if_splits)
  from assms(2) rest have "modifiers (dropWhile isIdent r)"
    using modifiers_redirections by blast
  with ts w show ?thesis by (simp add: accepted_def)
qed

lemma piped_modifiers: "piped ts \<Longrightarrow> modifiers ts"
proof (induction ts rule: piped.induct)
  case 1
  show ?case by simp
next
  case (2 t ts)
  show ?case
  proof (cases "token_id t = PIPE")
    case False
    with "2.prems" show ?thesis by simp
  next
    case True
    with "2.prems" obtain rest where sr: "stage_rest ts = Some rest" and pr: "piped rest"
      by (auto split: option.splits)
    from "2.IH" [OF True sr pr] have "modifiers rest" .
    with sr have "accepted ts" by (rule stage_accepted)
    with True show ?thesis
      by (cases ts) (auto simp: accepted_def redirect_op_def)
  qed
qed

lemma grammar_accepted:
  assumes "grammar ts"
  shows "accepted ts"
proof -
  from assms obtain rest where sr: "stage_rest ts = Some rest"
    by (auto simp: grammar_def split: option.splits)
  have "modifiers rest"
  proof (cases rest)
    case Nil
    then show ?thesis by simp
  next
    case (Cons t others)
    show ?thesis
    proof (cases "token_id t = BG")
      case True
      with assms sr Cons have "piped others" by (simp add: grammar_def)
      then have "modifiers others" by (rule piped_modifiers)
      with True Cons show ?thesis by simp
    next
      case False
      with assms sr Cons have "piped rest" by (simp add: grammar_def del: piped.simps)
      then show ?thesis by (rule piped_modifiers)
    qed
  qed
  with sr show ?thesis by (rule stage_accepted)
qed

lemma lexed_notEnd: "list_all lexed ts \<Longrightarrow> list_all notEnd ts"
  by (induction ts) (auto simp: lexed_def notEnd_def)

text \<open>
  C1. On every token sequence of the grammar
  \<open>ident+ (redir ident)* (&)? (| ident+ (redir ident)*)* (&)?\<close> the parser succeeds,
  and the chain it returns has one node per group of identifiers: one more than the
  sequence has pipes. This is the result that the code returns in an ordinary build.
  Where the last token of the sequence is a word, the parser gets it by way of the
  read outside the vector that C7 is about, which gives it the identifier erased last
  and so ends the argument loop at its test for the empty vector.
\<close>

theorem buildCommands_grammar:
  assumes "grammar tokens"
  shows "\<exists>chain. buildCommands Unchecked tokens = Inr (Some chain)
           \<and> length (stages chain) = Suc (count_pipes tokens)"
proof -
  from assms have lex: "list_all lexed tokens" by (simp add: grammar_def)
  from assms have "accepted tokens" by (rule grammar_accepted)
  with lex obtain chain where "buildCommands Unchecked tokens = Inr (Some chain)"
    using parser_accepts(1) [of Unchecked tokens] by blast
  moreover from this lex have "length (stages chain) = Suc (count_pipes tokens)"
    using stage_count(1) lexed_notEnd by blast
  ultimately show ?thesis by blast
qed

theorem buildCommands_grammar_witness:
  "tokenList Unchecked ''test hoi hai | cat''
     = Some (Inr [makeIdent ''test'', makeIdent ''hoi'', makeIdent ''hai'', make PIPE,
                  makeIdent ''cat''])
   \<and> grammar [makeIdent ''test'', makeIdent ''hoi'', makeIdent ''hai'', make PIPE,
              makeIdent ''cat'']
   \<and> buildCommands Unchecked [makeIdent ''test'', makeIdent ''hoi'', makeIdent ''hai'', make PIPE,
                               makeIdent ''cat'']
     = Inr (Some (Command (Some ''test'') (Some [Some ''test'', Some ''hoi'', Some ''hai''])
                    False None None None
                    (Some (Command (Some ''cat'') (Some [Some ''cat'']) False None None None
                             None))))
   \<and> (\<exists>chain. buildCommands Unchecked [makeIdent ''test'', makeIdent ''hoi'', makeIdent ''hai'',
                                        make PIPE, makeIdent ''cat'']
                = Inr (Some chain)
              \<and> length (stages chain)
                = Suc (count_pipes [makeIdent ''test'', makeIdent ''hoi'', makeIdent ''hai'',
                                    make PIPE, makeIdent ''cat'']))"
  using buildCommands_grammar [of "[makeIdent ''test'', makeIdent ''hoi'', makeIdent ''hai'',
                                    make PIPE, makeIdent ''cat'']"]
  by (simp add: tokenList_def tokenLoop.simps make_def makeIdent_def newCommand_def
        grammar_def lexed_def stage_rest_def isIdent_def redirect_op_def vector_front_def
        count_pipes_def)

text \<open>
  With the checked library a line of words alone always ends at the read of the
  empty vector.
\<close>

lemma words_only_fault:
  assumes "ts \<noteq> []" and "list_all isIdent ts" and "list_all lexed ts"
  shows "buildCommands Checked ts = Inl FrontOfEmptyVector"
proof -
  from assms(1) obtain cur_token tokens where ts: "ts = cur_token # tokens"
    by (cases ts) auto
  with assms(2,3) have id: "token_id cur_token = IDENT" and all: "list_all isIdent tokens"
    by (simp_all add: isIdent_def)
  from ts assms(3) id obtain name where name: "str cur_token = Some name"
    by (auto simp: lexed_def)
  show ?thesis
  proof (cases tokens)
    case Nil
    with ts id name show ?thesis by (simp add: newCommand_def vector_front_def)
  next
    case (Cons peek x22)
    then have vf: "vector_front Checked cur_token tokens = Inr peek"
      by (simp add: vector_front_def)
    have "collectArgs Checked peek [str cur_token] tokens = Inl FrontOfEmptyVector"
      using collectArgs_front [OF vf, of "[str cur_token]"] all Cons by simp
    with ts id name vf show ?thesis by (simp add: newCommand_def del: collectArgs.simps)
  qed
qed

text \<open>
  With the unchecked library the same read gives the identifier erased last, and the
  parser returns the command with its words.
\<close>

lemma words_unchecked:
  "buildCommands Unchecked [makeIdent ''echo'', makeIdent ''hi'']
     = Inr (Some (Command (Some ''echo'') (Some [Some ''echo'', Some ''hi'']) False None None
                    None None))"
  by (simp add: makeIdent_def newCommand_def vector_front_def)

text \<open>
  C7. The claim: on a token sequence that starts with an identifier the parser never
  reads the front of an empty vector, also not when the last token is an identifier,
  as in \<open>echo hi\<close>. The code does: with \<open>echo\<close> as \<open>cur_token\<close> the loop of the case
  \<open>IDENT\<close> erases \<open>hi\<close>, which empties the vector, and then executes
  \<open>peek = tokens.front()\<close>; the test \<open>tokens.empty()\<close> comes only in the next round.
  A single word (\<open>echo\<close>) comes to it one line earlier, at
  \<open>Token *peek = tokens.front()\<close>. The checked library reports the read. It is so for
  every line of words alone (\<open>words_only_fault\<close>). With the unchecked library the
  read is made all the same and goes unnoticed (\<open>words_unchecked\<close>).
\<close>

theorem buildCommands_front_of_empty:
  "buildCommands Checked [makeIdent ''echo'', makeIdent ''hi''] = Inl FrontOfEmptyVector
   \<and> buildCommands Checked [makeIdent ''echo''] = Inl FrontOfEmptyVector"
  by (simp add: makeIdent_def newCommand_def vector_front_def)

section \<open>Where redirections and the background flag end up\<close>

lemma after_first_pipe_dropWhile:
  "after_first_pipe (dropWhile isIdent ts) = after_first_pipe ts"
  by (induction ts) (auto simp: isIdent_def)

lemma before_last_pipe_none: "\<not> hasPipe ts \<Longrightarrow> before_last_pipe ts = []"
  by (cases ts) (auto simp: hasPipe_def)

lemma before_last_pipe_tail:
  "list_all P (before_last_pipe (t # ts)) \<Longrightarrow> list_all P (before_last_pipe ts)"
  by (cases "hasPipe ts") (simp_all add: before_last_pipe_none)

lemma before_last_pipe_head:
  "hasPipe ts \<Longrightarrow> list_all P (before_last_pipe (t # ts)) \<Longrightarrow> P t"
  by simp

lemma before_last_pipe_dropWhile:
  "list_all P (before_last_pipe ts) \<Longrightarrow> list_all P (before_last_pipe (dropWhile Q ts))"
proof (induction ts)
  case Nil
  then show ?case by simp
next
  case (Cons t ts)
  show ?case
  proof (cases "Q t")
    case True
    with Cons show ?thesis using before_last_pipe_tail [of P t ts] by simp
  next
    case False
    with Cons show ?thesis by simp
  qed
qed

text \<open>Input redirection: a stage has an input file only if its tokens hold a \<open><\<close>.\<close>

lemma no_redir_in:
  shows "buildCommands lib ts = Inr (Some r) \<Longrightarrow> list_all noIn ts \<Longrightarrow>
           list_all (\<lambda>s. redir_in s = None) (stages r)"
    and "buildLoop lib cmd cur ts2 = Inr (Some r) \<Longrightarrow> list_all noIn (cur # ts2) \<Longrightarrow>
           pipe_to cmd = None \<Longrightarrow> redir_in cmd = None \<Longrightarrow>
           list_all (\<lambda>s. redir_in s = None) (stages r)"
    and "loopTail lib cmd3 ts3 = Inr (Some r) \<Longrightarrow> list_all noIn ts3 \<Longrightarrow>
           pipe_to cmd3 = None \<Longrightarrow> redir_in cmd3 = None \<Longrightarrow>
           list_all (\<lambda>s. redir_in s = None) (stages r)"
proof (induction lib ts and lib cmd cur ts2 and lib cmd3 ts3 arbitrary: r and r and r
    rule: buildCommands_buildLoop_loopTail.induct)
  case (1 lib)
  then show ?case by simp
next
  case (2 lib cur_token tokens)
  from "2.prems"(1) have id: "\<not> token_id cur_token \<noteq> IDENT"
    and bl: "buildLoop lib newCommand cur_token tokens = Inr (Some r)"
    by (simp_all split: if_splits)
  from "2.IH" [OF id bl "2.prems"(2)] show ?case by (simp add: newCommand_def)
next
  case (3 lib c a b ap ri ro p cur_token tokens)
  note res = \<open>buildLoop lib (Command c a b ap ri ro p) cur_token tokens = Inr (Some r)\<close>
  from "3.prems"(3,4) have p: "p = None" and ri: "ri = None" by simp_all
  from "3.prems"(2) have ni: "list_all noIn tokens" and nc: "noIn cur_token" by simp_all
  show ?case
  proof (cases "token_id cur_token")
    case IDENT
    from res IDENT obtain peek name args' rest where
      vf: "vector_front lib cur_token tokens = Inr peek" and name: "str cur_token = Some name"
      and ca: "collectArgs lib peek [str cur_token] tokens = Inr (args', rest)"
      and lt: "loopTail lib (Command (Some name) (Some args') b ap ri ro p) rest = Inr (Some r)"
      by (auto simp del: collectArgs.simps split: option.splits sum.splits)
    from vf ca have "rest = dropWhile isIdent tokens"
      by (rule collectArgs_rest)
    with ni have "list_all noIn rest" by (simp add: list_all_dropWhile)
    from "3.IH"(1) [OF IDENT vf name ca refl lt this] p ri show ?thesis by simp
  next
    case PIPE
    from res PIPE obtain n where bc: "buildCommands lib tokens = Inr (Some n)"
      and r: "r = Command c a b ap ri ro (Some n)"
      by (auto split: sum.splits option.splits)
    from "3.IH"(2) [OF PIPE bc ni] r ri show ?thesis by simp
  next
    case REDIR_IN
    with nc show ?thesis by (simp add: noIn_def)
  next
    case REDIR_OUT
    from res REDIR_OUT obtain f rest where rt: "redirTarget tokens = Inr (Some (f, rest))"
      and lt: "loopTail lib (Command c a b ap ri (Some f) p) rest = Inr (Some r)"
      by (auto split: sum.splits option.splits)
    from redirTarget_Some [OF rt] ni have "list_all noIn rest" by auto
    from "3.IH"(4) [OF REDIR_OUT rt refl refl lt this] p ri show ?thesis by simp
  next
    case APPEND_OUT
    from res APPEND_OUT obtain f rest where rt: "redirTarget tokens = Inr (Some (f, rest))"
      and lt: "loopTail lib (Command c a b (Some True) ri (Some f) p) rest = Inr (Some r)"
      by (auto split: sum.splits option.splits)
    from redirTarget_Some [OF rt] ni have "list_all noIn rest" by auto
    from "3.IH"(5) [OF APPEND_OUT rt refl refl lt this] p ri show ?thesis by simp
  next
    case BG
    with res have lt: "loopTail lib (Command c a True ap ri ro p) tokens = Inr (Some r)" by simp
    from "3.IH"(6) [OF BG lt ni] p ri show ?thesis by simp
  next
    case END
    with res have "r = Command c a b ap ri ro p" by simp
    with p ri show ?thesis by simp
  qed
next
  case (4 lib cmd)
  from "4.prems"(1) have "r = cmd" by (simp split: if_splits)
  with "4.prems"(3,4) show ?case by (simp add: stages_single)
next
  case (5 lib cmd cur_token tokens)
  from "5.prems"(1) have "buildLoop lib cmd cur_token tokens = Inr (Some r)" by simp
  from "5.IH" [OF this "5.prems"(2,3,4)] show ?case .
qed

text \<open>Stages after the first: their tokens are those after the first pipe.\<close>

lemma later_redir_in:
  shows "buildCommands lib ts = Inr (Some r) \<Longrightarrow> list_all noIn (after_first_pipe ts) \<Longrightarrow>
           list_all (\<lambda>s. redir_in s = None) (tl (stages r))"
    and "buildLoop lib cmd cur ts2 = Inr (Some r) \<Longrightarrow> list_all noIn (after_first_pipe (cur # ts2)) \<Longrightarrow>
           pipe_to cmd = None \<Longrightarrow>
           list_all (\<lambda>s. redir_in s = None) (tl (stages r))"
    and "loopTail lib cmd3 ts3 = Inr (Some r) \<Longrightarrow> list_all noIn (after_first_pipe ts3) \<Longrightarrow>
           pipe_to cmd3 = None \<Longrightarrow>
           list_all (\<lambda>s. redir_in s = None) (tl (stages r))"
proof (induction lib ts and lib cmd cur ts2 and lib cmd3 ts3 arbitrary: r and r and r
    rule: buildCommands_buildLoop_loopTail.induct)
  case (1 lib)
  then show ?case by simp
next
  case (2 lib cur_token tokens)
  from "2.prems"(1) have id: "\<not> token_id cur_token \<noteq> IDENT"
    and bl: "buildLoop lib newCommand cur_token tokens = Inr (Some r)"
    by (simp_all split: if_splits)
  from "2.IH" [OF id bl "2.prems"(2)] show ?case by (simp add: newCommand_def)
next
  case (3 lib c a b ap ri ro p cur_token tokens)
  note res = \<open>buildLoop lib (Command c a b ap ri ro p) cur_token tokens = Inr (Some r)\<close>
  note later = \<open>list_all noIn (after_first_pipe (cur_token # tokens))\<close>
  from "3.prems"(3) have p: "p = None" by simp
  show ?case
  proof (cases "token_id cur_token")
    case IDENT
    from res IDENT obtain peek name args' rest where
      vf: "vector_front lib cur_token tokens = Inr peek" and name: "str cur_token = Some name"
      and ca: "collectArgs lib peek [str cur_token] tokens = Inr (args', rest)"
      and lt: "loopTail lib (Command (Some name) (Some args') b ap ri ro p) rest = Inr (Some r)"
      by (auto simp del: collectArgs.simps split: option.splits sum.splits)
    from vf ca have "rest = dropWhile isIdent tokens"
      by (rule collectArgs_rest)
    with later IDENT have "list_all noIn (after_first_pipe rest)"
      by (simp add: after_first_pipe_dropWhile)
    from "3.IH"(1) [OF IDENT vf name ca refl lt this] p show ?thesis by simp
  next
    case PIPE
    from res PIPE obtain n where bc: "buildCommands lib tokens = Inr (Some n)"
      and r: "r = Command c a b ap ri ro (Some n)"
      by (auto split: sum.splits option.splits)
    from later PIPE have "list_all noIn tokens" by simp
    from no_redir_in(1) [OF bc this] r show ?thesis by simp
  next
    case REDIR_IN
    from res REDIR_IN obtain f rest where rt: "redirTarget tokens = Inr (Some (f, rest))"
      and lt: "loopTail lib (Command c a b ap (Some f) ro p) rest = Inr (Some r)"
      by (auto split: sum.splits option.splits)
    from redirTarget_Some [OF rt] later REDIR_IN have "list_all noIn (after_first_pipe rest)"
      by auto
    from "3.IH"(3) [OF REDIR_IN rt refl refl lt this] p show ?thesis by simp
  next
    case REDIR_OUT
    from res REDIR_OUT obtain f rest where rt: "redirTarget tokens = Inr (Some (f, rest))"
      and lt: "loopTail lib (Command c a b ap ri (Some f) p) rest = Inr (Some r)"
      by (auto split: sum.splits option.splits)
    from redirTarget_Some [OF rt] later REDIR_OUT have "list_all noIn (after_first_pipe rest)"
      by auto
    from "3.IH"(4) [OF REDIR_OUT rt refl refl lt this] p show ?thesis by simp
  next
    case APPEND_OUT
    from res APPEND_OUT obtain f rest where rt: "redirTarget tokens = Inr (Some (f, rest))"
      and lt: "loopTail lib (Command c a b (Some True) ri (Some f) p) rest = Inr (Some r)"
      by (auto split: sum.splits option.splits)
    from redirTarget_Some [OF rt] later APPEND_OUT have "list_all noIn (after_first_pipe rest)"
      by auto
    from "3.IH"(5) [OF APPEND_OUT rt refl refl lt this] p show ?thesis by simp
  next
    case BG
    with res have lt: "loopTail lib (Command c a True ap ri ro p) tokens = Inr (Some r)" by simp
    from later BG have "list_all noIn (after_first_pipe tokens)" by simp
    from "3.IH"(6) [OF BG lt this] p show ?thesis by simp
  next
    case END
    with res have "r = Command c a b ap ri ro p" by simp
    with p show ?thesis by simp
  qed
next
  case (4 lib cmd)
  from "4.prems"(1) have "r = cmd" by (simp split: if_splits)
  with "4.prems"(3) show ?case by (simp add: stages_single)
next
  case (5 lib cmd cur_token tokens)
  from "5.prems"(1) have "buildLoop lib cmd cur_token tokens = Inr (Some r)" by simp
  from "5.IH" [OF this "5.prems"(2,3)] show ?case .
qed

lemma butlast_stages_Some:
  "butlast (stages (Command c a b ap ri ro (Some n))) = Command c a b ap ri ro (Some n) # butlast (stages n)"
  by (simp add: stages_nonempty)

lemma hasPipe_Cons: "hasPipe (t # ts) = (token_id t = PIPE \<or> hasPipe ts)"
  by (simp add: hasPipe_def)

lemma earlier_out_bg:
  shows "buildCommands lib ts = Inr (Some r) \<Longrightarrow> list_all noOutBg (before_last_pipe ts) \<Longrightarrow>
           list_all outNone (butlast (stages r))"
    and "buildLoop lib cmd cur ts2 = Inr (Some r) \<Longrightarrow> list_all noOutBg (before_last_pipe (cur # ts2)) \<Longrightarrow>
           pipe_to cmd = None \<Longrightarrow> (hasPipe (cur # ts2) \<Longrightarrow> outNone cmd) \<Longrightarrow>
           list_all outNone (butlast (stages r))"
    and "loopTail lib cmd3 ts3 = Inr (Some r) \<Longrightarrow> list_all noOutBg (before_last_pipe ts3) \<Longrightarrow>
           pipe_to cmd3 = None \<Longrightarrow> (hasPipe ts3 \<Longrightarrow> outNone cmd3) \<Longrightarrow>
           list_all outNone (butlast (stages r))"
proof (induction lib ts and lib cmd cur ts2 and lib cmd3 ts3 arbitrary: r and r and r
    rule: buildCommands_buildLoop_loopTail.induct)
  case (1 lib)
  then show ?case by simp
next
  case (2 lib cur_token tokens)
  from "2.prems"(1) have id: "\<not> token_id cur_token \<noteq> IDENT"
    and bl: "buildLoop lib newCommand cur_token tokens = Inr (Some r)"
    by (simp_all split: if_splits)
  have "outNone newCommand" by (simp add: outNone_def newCommand_def)
  from "2.IH" [OF id bl "2.prems"(2) _ this] show ?case by (simp add: newCommand_def)
next
  case (3 lib c a b ap ri ro p cur_token tokens)
  note res = \<open>buildLoop lib (Command c a b ap ri ro p) cur_token tokens = Inr (Some r)\<close>
  note early = \<open>list_all noOutBg (before_last_pipe (cur_token # tokens))\<close>
  note clean = \<open>hasPipe (cur_token # tokens) \<Longrightarrow> outNone (Command c a b ap ri ro p)\<close>
  from "3.prems"(3) have p: "p = None" by simp
  from early have early': "list_all noOutBg (before_last_pipe tokens)"
    by (rule before_last_pipe_tail)
  have cur: "hasPipe tokens \<Longrightarrow> noOutBg cur_token"
    using early by simp
  show ?case
  proof (cases "token_id cur_token")
    case IDENT
    from res IDENT obtain peek name args' rest where
      vf: "vector_front lib cur_token tokens = Inr peek" and name: "str cur_token = Some name"
      and ca: "collectArgs lib peek [str cur_token] tokens = Inr (args', rest)"
      and lt: "loopTail lib (Command (Some name) (Some args') b ap ri ro p) rest = Inr (Some r)"
      by (auto simp del: collectArgs.simps split: option.splits sum.splits)
    from vf ca have rest: "rest = dropWhile isIdent tokens"
      by (rule collectArgs_rest)
    with early' have e: "list_all noOutBg (before_last_pipe rest)"
      by (simp add: before_last_pipe_dropWhile)
    have "outNone (Command (Some name) (Some args') b ap ri ro p)" if "hasPipe rest"
    proof -
      from that rest have "hasPipe (cur_token # tokens)"
        by (simp add: hasPipe_dropWhile hasPipe_Cons)
      then show ?thesis using clean by (simp add: outNone_def)
    qed
    from "3.IH"(1) [OF IDENT vf name ca refl lt e _ this] p show ?thesis by simp
  next
    case PIPE
    from res PIPE obtain n where bc: "buildCommands lib tokens = Inr (Some n)"
      and r: "r = Command c a b ap ri ro (Some n)"
      by (auto split: sum.splits option.splits)
    from PIPE have "hasPipe (cur_token # tokens)" by (simp add: hasPipe_Cons)
    then have "outNone (Command c a b ap ri ro (Some n))"
      using clean by (simp add: outNone_def)
    with "3.IH"(2) [OF PIPE bc early'] r show ?thesis
      by (simp add: butlast_stages_Some)
  next
    case REDIR_IN
    from res REDIR_IN obtain f rest where rt: "redirTarget tokens = Inr (Some (f, rest))"
      and lt: "loopTail lib (Command c a b ap (Some f) ro p) rest = Inr (Some r)"
      by (auto split: sum.splits option.splits)
    from redirTarget_Some [OF rt] obtain peek where tk: "tokens = peek # rest"
      and pk: "token_id peek = IDENT" by blast
    from early' tk have e: "list_all noOutBg (before_last_pipe rest)"
      using before_last_pipe_tail by blast
    have "outNone (Command c a b ap (Some f) ro p)" if "hasPipe rest"
    proof -
      from that tk have "hasPipe (cur_token # tokens)" by (simp add: hasPipe_Cons)
      then show ?thesis using clean by (simp add: outNone_def)
    qed
    from "3.IH"(3) [OF REDIR_IN rt refl refl lt e _ this] p show ?thesis by simp
  next
    case REDIR_OUT
    from res REDIR_OUT obtain f rest where rt: "redirTarget tokens = Inr (Some (f, rest))"
      and lt: "loopTail lib (Command c a b ap ri (Some f) p) rest = Inr (Some r)"
      by (auto split: sum.splits option.splits)
    from redirTarget_Some [OF rt] obtain peek where tk: "tokens = peek # rest"
      and pk: "token_id peek = IDENT" by blast
    from early' tk have e: "list_all noOutBg (before_last_pipe rest)"
      using before_last_pipe_tail by blast
    have "outNone (Command c a b ap ri (Some f) p)" if "hasPipe rest"
    proof -
      from that tk have "hasPipe tokens" by (simp add: hasPipe_Cons)
      with cur REDIR_OUT show ?thesis by (simp add: noOutBg_def)
    qed
    from "3.IH"(4) [OF REDIR_OUT rt refl refl lt e _ this] p show ?thesis by simp
  next
    case APPEND_OUT
    from res APPEND_OUT obtain f rest where rt: "redirTarget tokens = Inr (Some (f, rest))"
      and lt: "loopTail lib (Command c a b (Some True) ri (Some f) p) rest = Inr (Some r)"
      by (auto split: sum.splits option.splits)
    from redirTarget_Some [OF rt] obtain peek where tk: "tokens = peek # rest"
      and pk: "token_id peek = IDENT" by blast
    from early' tk have e: "list_all noOutBg (before_last_pipe rest)"
      using before_last_pipe_tail by blast
    have "outNone (Command c a b (Some True) ri (Some f) p)" if "hasPipe rest"
    proof -
      from that tk have "hasPipe tokens" by (simp add: hasPipe_Cons)
      with cur APPEND_OUT show ?thesis by (simp add: noOutBg_def)
    qed
    from "3.IH"(5) [OF APPEND_OUT rt refl refl lt e _ this] p show ?thesis by simp
  next
    case BG
    with res have lt: "loopTail lib (Command c a True ap ri ro p) tokens = Inr (Some r)" by simp
    have "outNone (Command c a True ap ri ro p)" if "hasPipe tokens"
      using that cur BG by (simp add: noOutBg_def)
    from "3.IH"(6) [OF BG lt early' _ this] p show ?thesis by simp
  next
    case END
    with res have "r = Command c a b ap ri ro p" by simp
    with p show ?thesis by simp
  qed
next
  case (4 lib cmd)
  from "4.prems"(1) have "r = cmd" by (simp split: if_splits)
  with "4.prems"(3) show ?case by (simp add: stages_single)
next
  case (5 lib cmd cur_token tokens)
  from "5.prems"(1) have "buildLoop lib cmd cur_token tokens = Inr (Some r)" by simp
  from "5.IH" [OF this "5.prems"(2,3,4)] show ?case .
qed

text \<open>
  C4, as the code has it. The placement invariant holds for the chain of a successful
  parse whenever the tokens have it: no \<open><\<close> after the first pipe, and no \<open>>\<close>,
  \<open>>>\<close> or \<open>&\<close> before the last pipe. This holds with either library.
\<close>

theorem placement_of_separated_tokens:
  assumes "buildCommands lib tokens = Inr (Some chain)"
    and "list_all (\<lambda>t. token_id t \<noteq> REDIR_IN) (after_first_pipe tokens)"
    and "list_all (\<lambda>t. token_id t \<noteq> REDIR_OUT \<and> token_id t \<noteq> APPEND_OUT \<and> token_id t \<noteq> BG)
           (before_last_pipe tokens)"
  shows "placement_ok chain"
proof -
  have "list_all noIn (after_first_pipe tokens)"
    using assms(2) by (simp add: noIn_def [abs_def])
  then have a: "list_all (\<lambda>s. redir_in s = None) (tl (stages chain))"
    using later_redir_in(1) [OF assms(1)] by simp
  have "list_all noOutBg (before_last_pipe tokens)"
    using assms(3) by (simp add: noOutBg_def [abs_def])
  then have "list_all outNone (butlast (stages chain))"
    using earlier_out_bg(1) [OF assms(1)] by simp
  then have b: "list_all (\<lambda>s. redir_out s = None \<and> \<not> bg s) (butlast (stages chain))"
    by (simp add: outNone_def [abs_def])
  from a b show ?thesis by (simp add: placement_ok_def)
qed

text \<open>
  Two instances: the command line \<open>cat < 1 | head -n 3\<close>, whose last token is a
  word, as an ordinary build parses it, and \<open>cat < 1 | head -n 3 >> foobar &\<close> with
  the checked library: the input redirect on the first stage, the output redirect and
  \<open>&\<close> on the last.
\<close>

theorem placement_of_separated_tokens_witness:
  "buildCommands Unchecked
     [makeIdent ''cat'', make REDIR_IN, makeIdent ''1'', make PIPE, makeIdent ''head'',
      makeIdent ''-n'', makeIdent ''3'']
     = Inr (Some
        (Command (Some ''cat'') (Some [Some ''cat'']) False None (Some ''1'') None
          (Some (Command (Some ''head'') (Some [Some ''head'', Some ''-n'', Some ''3'']) False
             None None None None))))
   \<and> placement_ok
        (Command (Some ''cat'') (Some [Some ''cat'']) False None (Some ''1'') None
          (Some (Command (Some ''head'') (Some [Some ''head'', Some ''-n'', Some ''3'']) False
             None None None None)))
   \<and> buildCommands Checked
     [makeIdent ''cat'', make REDIR_IN, makeIdent ''1'', make PIPE, makeIdent ''head'',
      makeIdent ''-n'', makeIdent ''3'', make APPEND_OUT, makeIdent ''foobar'', make BG]
     = Inr (Some
        (Command (Some ''cat'') (Some [Some ''cat'']) False None (Some ''1'') None
          (Some (Command (Some ''head'') (Some [Some ''head'', Some ''-n'', Some ''3'']) True
             (Some True) None (Some ''foobar'') None))))
   \<and> placement_ok
        (Command (Some ''cat'') (Some [Some ''cat'']) False None (Some ''1'') None
          (Some (Command (Some ''head'') (Some [Some ''head'', Some ''-n'', Some ''3'']) True
             (Some True) None (Some ''foobar'') None)))"
proof -
  let ?words = "[makeIdent ''cat'', make REDIR_IN, makeIdent ''1'', make PIPE, makeIdent ''head'',
      makeIdent ''-n'', makeIdent ''3'']"
  let ?short = "Command (Some ''cat'') (Some [Some ''cat'']) False None (Some ''1'') None
          (Some (Command (Some ''head'') (Some [Some ''head'', Some ''-n'', Some ''3'']) False
             None None None None))"
  let ?tokens = "[makeIdent ''cat'', make REDIR_IN, makeIdent ''1'', make PIPE, makeIdent ''head'',
      makeIdent ''-n'', makeIdent ''3'', make APPEND_OUT, makeIdent ''foobar'', make BG]"
  let ?chain = "Command (Some ''cat'') (Some [Some ''cat'']) False None (Some ''1'') None
          (Some (Command (Some ''head'') (Some [Some ''head'', Some ''-n'', Some ''3'']) True
             (Some True) None (Some ''foobar'') None))"
  have parse_words: "buildCommands Unchecked ?words = Inr (Some ?short)"
    by (simp add: make_def makeIdent_def newCommand_def redirTarget_def vector_front_def)
  have inputs_words: "list_all (\<lambda>t. token_id t \<noteq> REDIR_IN) (after_first_pipe ?words)"
    by (simp add: make_def makeIdent_def)
  have outputs_words: "list_all
      (\<lambda>t. token_id t \<noteq> REDIR_OUT \<and> token_id t \<noteq> APPEND_OUT \<and> token_id t \<noteq> BG)
      (before_last_pipe ?words)"
    by (simp add: make_def makeIdent_def hasPipe_def)
  have parse: "buildCommands Checked ?tokens = Inr (Some ?chain)"
    by (simp add: make_def makeIdent_def newCommand_def redirTarget_def vector_front_def)
  have inputs: "list_all (\<lambda>t. token_id t \<noteq> REDIR_IN) (after_first_pipe ?tokens)"
    by (simp add: make_def makeIdent_def)
  have outputs: "list_all
      (\<lambda>t. token_id t \<noteq> REDIR_OUT \<and> token_id t \<noteq> APPEND_OUT \<and> token_id t \<noteq> BG)
      (before_last_pipe ?tokens)"
    by (simp add: make_def makeIdent_def hasPipe_def)
  from placement_of_separated_tokens [OF parse_words inputs_words outputs_words]
    placement_of_separated_tokens [OF parse inputs outputs] parse_words parse
  show ?thesis
    by simp
qed

text \<open>
  The claim C4 as it is stated fails: \<open>ls > out | cat &\<close> parses, with either
  library, and its first stage, which is not the last, has the output redirect.
\<close>

theorem placement_counterexample:
  "buildCommands Unchecked
     [makeIdent ''ls'', make REDIR_OUT, makeIdent ''out'', make PIPE, makeIdent ''cat'', make BG]
     = Inr (Some
        (Command (Some ''ls'') (Some [Some ''ls'']) False None None (Some ''out'')
          (Some (Command (Some ''cat'') (Some [Some ''cat'']) True None None None None))))
   \<and> buildCommands Checked
     [makeIdent ''ls'', make REDIR_OUT, makeIdent ''out'', make PIPE, makeIdent ''cat'', make BG]
     = Inr (Some
        (Command (Some ''ls'') (Some [Some ''ls'']) False None None (Some ''out'')
          (Some (Command (Some ''cat'') (Some [Some ''cat'']) True None None None None))))
   \<and> \<not> placement_ok
        (Command (Some ''ls'') (Some [Some ''ls'']) False None None (Some ''out'')
          (Some (Command (Some ''cat'') (Some [Some ''cat'']) True None None None None)))"
  by (simp add: make_def makeIdent_def newCommand_def redirTarget_def placement_ok_def
        vector_front_def)

section \<open>The pipeline driver\<close>

text \<open>
  Whether the driver waits is decided by the flag of the node it was given, the first
  stage of the chain.
\<close>

lemma driver_waits_first_stage:
  "executeCommand os cmd = Inr (Returned stages_forked output target w) \<Longrightarrow> w = (\<not> bg cmd)"
  by (auto simp: executeCommand_def split: option.splits sum.splits if_splits)

text \<open>
  C3. The claim: the driver waits for the drain process exactly when the pipeline is not
  flagged background, the flag being the one on the stage where \<open>&\<close> stood; a pipeline
  of several stages whose last stage has \<open>background = true\<close> returns without
  waiting. The code tests \<open>command->bg\<close>, the flag of the first stage, although the
  comment on the struct says that the flag counts on the last command only and the
  driver has just computed \<open>last_command\<close> for the output redirect. For
  \<open>sleep 5 | cat &\<close> the parser sets the flag on the last stage, and the driver
  waits.
\<close>

theorem driver_waits_for_background_pipeline:
  "buildCommands lib [makeIdent ''sleep'', makeIdent ''5'', make PIPE, makeIdent ''cat'', make BG]
     = Inr (Some
        (Command (Some ''sleep'') (Some [Some ''sleep'', Some ''5'']) False None None None
          (Some (Command (Some ''cat'') (Some [Some ''cat'']) True None None None None))))
   \<and> bg (lastCommand
        (Command (Some ''sleep'') (Some [Some ''sleep'', Some ''5'']) False None None None
          (Some (Command (Some ''cat'') (Some [Some ''cat'']) True None None None None))))
   \<and> executeCommand all_ok
        (Command (Some ''sleep'') (Some [Some ''sleep'', Some ''5'']) False None None None
          (Some (Command (Some ''cat'') (Some [Some ''cat'']) True None None None None)))
     = Inr (Returned
        [Child ''sleep'' [''sleep'', ''5''] STDIN_FILENO (PipeWrite 0),
         Child ''cat'' [''cat''] (PipeRead 0) (PipeWrite 1)]
        (PipeRead 1) (Inr STDOUT_FILENO) True)"
  by (simp add: make_def makeIdent_def newCommand_def executeCommand_def execvp_call_def
      drainTarget_def all_ok_def vector_front_def)

text \<open>
  The flags of the output file follow \<open>append\<close> wherever that member has a value:
  write-only, create, and append or truncate; the mode is read and write for the
  owner.
\<close>

lemma drain_open_flags:
  assumes "executeCommand os cmd = Inr (Returned stages_forked output target w)"
    and "redir_out (lastCommand cmd) = Some path"
    and "append_flag (lastCommand cmd) = Some ap"
  shows "target = Inr (Opened path {O_WRONLY, O_CREAT, if ap then O_APPEND else O_TRUNC}
                         {S_IRUSR, S_IWUSR})"
proof -
  from assms(1) have "target = drainTarget (lastCommand cmd)"
    by (auto simp: executeCommand_def split: option.splits sum.splits if_splits)
  with assms(2,3) show ?thesis
    by (auto simp: drainTarget_def)
qed

text \<open>Only \<open>>>\<close> gives \<open>append\<close> a value: \<open>echo hai >> foobar\<close> is opened to append.\<close>

lemma append_out_appends:
  "buildCommands lib [makeIdent ''echo'', makeIdent ''hai'', make APPEND_OUT, makeIdent ''foobar'']
     = Inr (Some (Command (Some ''echo'') (Some [Some ''echo'', Some ''hai'']) False (Some True)
                    None (Some ''foobar'') None))
   \<and> executeCommand all_ok
        (Command (Some ''echo'') (Some [Some ''echo'', Some ''hai'']) False (Some True)
                    None (Some ''foobar'') None)
     = Inr (Returned [Child ''echo'' [''echo'', ''hai''] STDIN_FILENO (PipeWrite 0)] (PipeRead 0)
              (Inr (Opened ''foobar'' {O_WRONLY, O_CREAT, O_APPEND} {S_IRUSR, S_IWUSR})) True)"
  by (simp add: make_def makeIdent_def newCommand_def redirTarget_def executeCommand_def
      execvp_call_def drainTarget_def all_ok_def insert_commute vector_front_def)

text \<open>
  C5. The claim: the output file of the last stage is opened write-only, created if
  missing, with read and write permission for the owner, truncated when
  \<open>append_output\<close> is false and opened to append when it is true, so that \<open>>\<close>
  truncates and \<open>>>\<close> appends. The driver computes the flags as claimed
  (\<open>drain_open_flags\<close>), but \<open>append\<close> is false nowhere: the constructor of
  \<open>Command\<close> initialises every member except \<open>append\<close>, and the parser assigns it
  in the case \<open>APPEND_OUT\<close> only. For \<open>ls > out\<close> the drain process therefore reads a
  member that was never written when it chooses between \<open>O_APPEND\<close> and \<open>O_TRUNC\<close>.
\<close>

theorem redirect_out_reads_unset_append:
  "buildCommands lib [makeIdent ''ls'', make REDIR_OUT, makeIdent ''out'']
     = Inr (Some (Command (Some ''ls'') (Some [Some ''ls'']) False None None (Some ''out'') None))
   \<and> executeCommand all_ok
        (Command (Some ''ls'') (Some [Some ''ls'']) False None None (Some ''out'') None)
     = Inr (Returned [Child ''ls'' [''ls''] STDIN_FILENO (PipeWrite 0)] (PipeRead 0)
              (Inl IndeterminateRead) True)"
  by (simp add: make_def makeIdent_def newCommand_def redirTarget_def executeCommand_def
      execvp_call_def drainTarget_def all_ok_def vector_front_def)

end
